theory Spec2Isabelle
  imports Complex_Main "HOL-Library.Word" "HOL-Library.Monad_Syntax"
begin

unbundle bit_operations_syntax

section \<open>JavaScript values\<close>

text \<open>
  A JavaScript string is a sequence of UTF-16 code units; \<open>length\<close>, \<open>substring\<close>,
  \<open>slice\<close> and regular expressions without the \<open>u\<close> flag work on code units, while
  \<open>Array.from\<close> and \<open>TextEncoder\<close> work on code points. A code unit is a natural
  number below \<open>0x10000\<close>, a code point one below \<open>0x110000\<close>.
\<close>

type_synonym jsstring = "nat list"
type_synonym byte = "8 word"

datatype error = RangeError | TypeError

definition is_lead :: "nat \<Rightarrow> bool" where
  "is_lead u = (0xD800 \<le> u \<and> u \<le> 0xDBFF)"

definition is_trail :: "nat \<Rightarrow> bool" where
  "is_trail u = (0xDC00 \<le> u \<and> u \<le> 0xDFFF)"

definition pair_cp :: "nat \<Rightarrow> nat \<Rightarrow> nat" where
  "pair_cp u v = (u - 0xD800) * 0x400 + (v - 0xDC00) + 0x10000"

text \<open>
  \<open>Array.from(str)\<close> runs the string iterator: a leading surrogate followed by a
  trailing one is one element, every other code unit (a lone surrogate too) is an element
  of its own. An element is a string of one code point and is represented by that code point.
\<close>

fun Array_from :: "jsstring \<Rightarrow> nat list" where
  "Array_from [] = []"
| "Array_from [u] = [u]"
| "Array_from (u # v # us) =
     (if is_lead u \<and> is_trail v then pair_cp u v # Array_from us
      else u # Array_from (v # us))"

text \<open>The string of one code point, and \<open>join("")\<close> of an array of such strings.\<close>

definition cp_string :: "nat \<Rightarrow> jsstring" where
  "cp_string c =
     (if c < 0x10000 then [c]
      else [0xD800 + (c - 0x10000) div 0x400, 0xDC00 + (c - 0x10000) mod 0x400])"

definition join_cps :: "nat list \<Rightarrow> jsstring" where
  "join_cps cs = concat (map cp_string cs)"

text \<open>
  \<open>new TextEncoder().encode(str)\<close>: the UTF-8 bytes of the string, a lone surrogate
  encoded as U+FFFD.
\<close>

definition utf8_cp :: "nat \<Rightarrow> byte list" where
  "utf8_cp c =
     (if c < 0x80 then [of_nat c]
      else if c < 0x800 then [of_nat (0xC0 + c div 0x40), of_nat (0x80 + c mod 0x40)]
      else if c < 0x10000 then
        [of_nat (0xE0 + c div 0x1000), of_nat (0x80 + (c div 0x40) mod 0x40),
         of_nat (0x80 + c mod 0x40)]
      else
        [of_nat (0xF0 + c div 0x40000), of_nat (0x80 + (c div 0x1000) mod 0x40),
         of_nat (0x80 + (c div 0x40) mod 0x40), of_nat (0x80 + c mod 0x40)])"

definition scalar_of :: "nat \<Rightarrow> nat" where
  "scalar_of c = (if is_lead c \<or> is_trail c then 0xFFFD else c)"

definition TextEncoder_encode :: "jsstring \<Rightarrow> byte list" where
  "TextEncoder_encode s = concat (map (utf8_cp \<circ> scalar_of) (Array_from s))"

text \<open>
  White space as \<open>\s\<close> and \<open>String.prototype.trim\<close> see it: the ECMAScript
  WhiteSpace and LineTerminator code units.
\<close>

definition is_space :: "nat \<Rightarrow> bool" where
  "is_space u =
     (u = 0x09 \<or> u = 0x0A \<or> u = 0x0B \<or> u = 0x0C \<or> u = 0x0D \<or> u = 0x20 \<or> u = 0xA0
      \<or> u = 0x1680 \<or> (0x2000 \<le> u \<and> u \<le> 0x200A) \<or> u = 0x2028 \<or> u = 0x2029
      \<or> u = 0x202F \<or> u = 0x205F \<or> u = 0x3000 \<or> u = 0xFEFF)"

definition trim :: "jsstring \<Rightarrow> jsstring" where
  "trim s = rev (dropWhile is_space (rev (dropWhile is_space s)))"

section \<open>Imported modules that are not part of the sources\<close>

text \<open>
  \<open>x26-encoder.js\<close> and \<open>wst-encoder.js\<close> import \<open>bitmask\<close> from
  \<open>bit-utils.js\<close> and \<open>hammingEncodeNybble\<close>, \<open>hammingEncode24\<close>, \<open>applyParity\<close>
  from \<open>parity.js\<close>. Neither file is among the sources, so the four functions are
  parameters of the model: every result below holds for any choice of them.
\<close>

record externals =
  bitmask :: "int \<Rightarrow> int"
  hammingEncodeNybble :: "int \<Rightarrow> byte"
  hammingEncode24 :: "int \<Rightarrow> byte list"
  applyParity :: "byte list \<Rightarrow> byte list"

section \<open>x26-encoder.js\<close>

text \<open>The \<open>Mode\<close> and \<open>DiacriticIndex\<close> constants.\<close>

definition SetActivePosition :: int where "SetActivePosition = 0x04"
definition DiacriticBase :: int where "DiacriticBase = 0x11"
definition G2Character :: int where "G2Character = 0x0f"
definition TerminationMarker :: int where "TerminationMarker = 0x1F"

definition Acute :: int where "Acute = 2"
definition Ring :: int where "Ring = 10"
definition Caron :: int where "Caron = 15"

record g2set =
  lower :: "int list"
  upper :: "int list"

definition G2_CARON_SETS :: "(string \<times> g2set) list" where
  "G2_CARON_SETS =
    [(''default'', \<lparr>lower = [0x62, 0x64, 0x65, 0x6e, 0x72, 0x73, 0x74, 0x7a],
                   upper = [0x42, 0x44, 0x45, 0x4e, 0x52, 0x53, 0x54, 0x5a]\<rparr>),
     (''alt1'', \<lparr>lower = [0x63, 0x64, 0x65, 0x6e, 0x72, 0x73, 0x74, 0x79],
                upper = [0x43, 0x44, 0x45, 0x4e, 0x52, 0x53, 0x54, 0x59]\<rparr>),
     (''alt2'', \<lparr>lower = [0x68, 0x6a, 0x6b, 0x70, 0x78, 0x79, 0x7a, 0x7e],
                upper = [0x48, 0x4a, 0x4b, 0x50, 0x58, 0x59, 0x5a, 0x5e]\<rparr>),
     (''iso88592'', \<lparr>lower = [0x68, 0x6f, 0x6c, 0x72, 0x78, 0x39, 0x3b, 0x2e],
                    upper = [0x48, 0x4f, 0x4c, 0x52, 0x58, 0x28, 0x2b, 0x2c]\<rparr>)]"

text \<open>\<open>CARON_LETTERS\<close> and \<open>CARON_LETTERS_UC\<close>, as code points.\<close>

definition CARON_LETTERS :: "nat list" where
  "CARON_LETTERS = [0x10D, 0x10F, 0x11B, 0x148, 0x159, 0x161, 0x165, 0x17E]"

definition CARON_LETTERS_UC :: "nat list" where
  "CARON_LETTERS_UC = [0x10C, 0x10E, 0x11A, 0x147, 0x158, 0x160, 0x164, 0x17D]"

text \<open>
  The options of the encoder. \<open>caronDiacriticIndex\<close> is an integer here: the source
  takes any number, and a fraction or NaN is outside this model.
\<close>

record x26opts =
  caronEncoding :: "string option"
  caronDiacriticIndex :: "int option"
  g2Variant :: "string option"

text \<open>
  A composition entry; \<open>entryCaronIndex\<close> is its \<open>caronDiacriticIndex\<close> property, which
  only the caron entries have.
\<close>

record entry =
  base :: nat
  diacritic :: int
  g2 :: "int option"
  useCompose :: bool
  entryCaronIndex :: "int option"

fun indexOf :: "nat list \<Rightarrow> nat \<Rightarrow> nat option" where
  "indexOf [] c = None"
| "indexOf (x # xs) c = (if x = c then Some 0 else map_option Suc (indexOf xs c))"

text \<open>
  \<open>G2_CARON_SETS[g2Variant]\<close> is a property lookup on an object literal. It finds one of
  the four sets, or a property that every object inherits from \<open>Object.prototype\<close>, or
  nothing. The value of an inherited property is a function (the prototype object for
  \<open>__proto__\<close>): it is not nullish and has no property \<open>lower\<close> or \<open>upper\<close>, so
  indexing \<open>g2Set.lower\<close> throws a TypeError.
\<close>

datatype g2value = Own g2set | Inherited

definition Object_prototype :: "string list" where
  "Object_prototype =
    [''constructor'', ''hasOwnProperty'', ''isPrototypeOf'', ''propertyIsEnumerable'',
     ''toLocaleString'', ''toString'', ''valueOf'', ''__proto__'', ''__defineGetter__'',
     ''__defineSetter__'', ''__lookupGetter__'', ''__lookupSetter__'']"

definition G2_CARON_SETS_get :: "string \<Rightarrow> g2value option" where
  "G2_CARON_SETS_get key =
     (case map_of G2_CARON_SETS key of
        Some s \<Rightarrow> Some (Own s)
      | None \<Rightarrow> (if key \<in> set Object_prototype then Some Inherited else None))"

definition caronG2 :: "g2value \<Rightarrow> nat \<Rightarrow> error + int option" where
  "caronG2 g2Set ch =
     (case indexOf CARON_LETTERS ch of
        Some i \<Rightarrow> (case g2Set of
                     Own s \<Rightarrow> Inr (Some (lower s ! i))
                   | Inherited \<Rightarrow> Inl TypeError)
      | None \<Rightarrow> (case indexOf CARON_LETTERS_UC ch of
                   Some j \<Rightarrow> (case g2Set of
                                Own s \<Rightarrow> Inr (Some (upper s ! j))
                              | Inherited \<Rightarrow> Inl TypeError)
                 | None \<Rightarrow> Inr None))"

text \<open>The \<open>acuteRing\<close> table and the two caron base tables of \<open>buildCzechMap\<close>.\<close>

definition acuteRing :: "(nat \<times> nat \<times> int) list" where
  "acuteRing =
    [(0xE1, 0x61, Acute), (0xE9, 0x65, Acute), (0xED, 0x69, Acute),
     (0xF3, 0x6F, Acute), (0xFA, 0x75, Acute), (0xFD, 0x79, Acute),
     (0x16F, 0x75, Ring),
     (0xC1, 0x41, Acute), (0xC9, 0x45, Acute), (0xCD, 0x49, Acute),
     (0xD3, 0x4F, Acute), (0xDA, 0x55, Acute), (0xDD, 0x59, Acute),
     (0x16E, 0x55, Ring)]"

definition caronBase :: "(nat \<times> nat) list" where
  "caronBase =
    [(0x10D, 0x63), (0x10F, 0x64), (0x11B, 0x65), (0x148, 0x6E),
     (0x159, 0x72), (0x161, 0x73), (0x165, 0x74), (0x17E, 0x7A)]"

definition caronBaseUC :: "(nat \<times> nat) list" where
  "caronBaseUC =
    [(0x10C, 0x43), (0x10E, 0x44), (0x11A, 0x45), (0x147, 0x4E),
     (0x158, 0x52), (0x160, 0x53), (0x164, 0x54), (0x17D, 0x5A)]"

text \<open>
  The body of the two loops over the caron letters, \<open>caronEntry\<close>, and a loop,
  \<open>caronEntries\<close>: \<open>caronG2\<close> is called in \<open>g2\<close> mode only, and the first exception
  ends the loop.
\<close>

definition caronEntry ::
  "string \<Rightarrow> int \<Rightarrow> g2value \<Rightarrow> (nat \<times> nat) list \<Rightarrow> nat \<Rightarrow> error + nat \<times> entry" where
  "caronEntry enc idx g2Set tbl ch =
     (case (if enc = ''g2'' then caronG2 g2Set ch else Inr None) of
        Inl e \<Rightarrow> Inl e
      | Inr g \<Rightarrow>
          Inr (ch, \<lparr>base = the (map_of tbl ch), diacritic = Caron, g2 = g,
                    useCompose = (enc = ''compose''), entryCaronIndex = Some idx\<rparr>))"

fun caronEntries ::
  "string \<Rightarrow> int \<Rightarrow> g2value \<Rightarrow> (nat \<times> nat) list \<Rightarrow> nat list \<Rightarrow> error + (nat \<times> entry) list" where
  "caronEntries enc idx g2Set tbl [] = Inr []"
| "caronEntries enc idx g2Set tbl (ch # rest) =
     (case caronEntry enc idx g2Set tbl ch of
        Inl e \<Rightarrow> Inl e
      | Inr en \<Rightarrow>
          (case caronEntries enc idx g2Set tbl rest of
             Inl e \<Rightarrow> Inl e
           | Inr es \<Rightarrow> Inr (en # es)))"

text \<open>
  \<open>buildCzechMap\<close>: the entries in the order the source sets them. No key occurs twice,
  so the first entry of a key is the one \<open>Map.get\<close> returns. \<open>g2Set\<close> is
  \<open>G2_CARON_SETS[g2Variant] ?? G2_CARON_SETS.default\<close>.
\<close>

definition buildCzechMap :: "x26opts \<Rightarrow> error + (nat \<times> entry) list" where
  "buildCzechMap opts =
     (let enc = (case caronEncoding opts of Some e \<Rightarrow> e | None \<Rightarrow> ''compose'');
          idx = max 1 (min 15 (case caronDiacriticIndex opts of Some i \<Rightarrow> i | None \<Rightarrow> 15));
          variant = (case g2Variant opts of Some v \<Rightarrow> v | None \<Rightarrow> ''default'');
          g2Set = (case G2_CARON_SETS_get variant of
                     Some v \<Rightarrow> v | None \<Rightarrow> Own (the (map_of G2_CARON_SETS ''default'')));
          acute = map (\<lambda>(ch, b, diac).
                         (ch, \<lparr>base = b, diacritic = diac, g2 = None, useCompose = True,
                               entryCaronIndex = None\<rparr>)) acuteRing
      in case caronEntries enc idx g2Set caronBase CARON_LETTERS of
           Inl e \<Rightarrow> Inl e
         | Inr lc \<Rightarrow>
             (case caronEntries enc idx g2Set caronBaseUC CARON_LETTERS_UC of
                Inl e \<Rightarrow> Inl e
              | Inr uc \<Rightarrow> Inr (acute @ lc @ uc)))"

record enhancement =
  mode :: int
  address :: int
  data :: int

definition packEnhancement :: "externals \<Rightarrow> int \<Rightarrow> int \<Rightarrow> int \<Rightarrow> int" where
  "packEnhancement ext m a d =
     (a AND bitmask ext 6) OR push_bit 6 (m AND bitmask ext 5) OR push_bit 11 (d AND bitmask ext 7)"

text \<open>
  The state of an \<open>X26Encoder\<close>: its private fields. The constructor throws what
  \<open>buildCzechMap\<close> throws.
\<close>

record x26encoder =
  enhancements :: "enhancement list"
  packets :: "byte list list option"
  czechMap :: "(nat \<times> entry) list"

definition new_X26Encoder :: "x26opts \<Rightarrow> error + x26encoder" where
  "new_X26Encoder opts =
     (case buildCzechMap opts of
        Inl e \<Rightarrow> Inl e
      | Inr cm \<Rightarrow> Inr \<lparr>enhancements = [], packets = None, czechMap = cm\<rparr>)"

text \<open>
  \<open>#encodeX26Packet\<close>: the designation byte, the triplets of the chunk, then the filler
  loop \<open>for (i = 1; i <= fillers; i++)\<close>.
\<close>

definition pushFiller :: "externals \<Rightarrow> nat \<Rightarrow> byte list \<Rightarrow> nat \<Rightarrow> byte list" where
  "pushFiller ext fillers result i =
     result @ hammingEncode24 ext
       (packEnhancement ext TerminationMarker 0x3f (if i = fillers then 0xff else 0x00))"

definition pushEnhancement :: "externals \<Rightarrow> byte list \<Rightarrow> enhancement \<Rightarrow> byte list" where
  "pushEnhancement ext result e =
     result @ hammingEncode24 ext (packEnhancement ext (mode e) (address e) (data e))"

definition encodeX26Packet :: "externals \<Rightarrow> nat \<Rightarrow> enhancement list \<Rightarrow> byte list" where
  "encodeX26Packet ext packetNumber es =
     (let result = foldl (pushEnhancement ext) [hammingEncodeNybble ext (int packetNumber)] es
      in if length es < 13
         then (let fillers = 13 - length es
               in foldl (pushFiller ext fillers) result [1..<Suc fillers])
         else result)"

text \<open>
  \<open>encodeRow\<close>: the loop over the columns of \<open>Array.from(str)\<close>. The row is rebuilt
  cell by cell, the enhancement list grows at its end, \<open>first\<close> is \<open>firstEnhancement\<close>.
\<close>

definition rowAddress :: "int \<Rightarrow> int" where
  "rowAddress rowLocation = (if rowLocation = 24 then 40 else 40 + rowLocation)"

definition entryTriplet :: "entry \<Rightarrow> nat \<Rightarrow> enhancement" where
  "entryTriplet e col =
     (if useCompose e then
        \<lparr>mode = DiacriticBase + ((case entryCaronIndex e of Some i \<Rightarrow> i | None \<Rightarrow> diacritic e) - 1),
         address = int col, data = int (base e) AND 0x7f\<rparr>
      else case g2 e of
        Some g \<Rightarrow> \<lparr>mode = G2Character, address = int col, data = g AND 0x7f\<rparr>
      | None \<Rightarrow> \<lparr>mode = DiacriticBase + (diacritic e - 1), address = int col,
                  data = int (base e) AND 0x7f\<rparr>)"

fun encodeRow_loop ::
  "(nat \<times> entry) list \<Rightarrow> int \<Rightarrow> nat \<Rightarrow> nat list \<Rightarrow> bool \<Rightarrow> enhancement list
     \<Rightarrow> nat list \<times> enhancement list" where
  "encodeRow_loop cm rowLocation col [] first enh = ([], enh)"
| "encodeRow_loop cm rowLocation col (ch # rest) first enh =
     (case map_of cm ch of
        None \<Rightarrow>
          (let (row', enh') = encodeRow_loop cm rowLocation (Suc col) rest first enh
           in (ch # row', enh'))
      | Some e \<Rightarrow>
          (let cell = (if g2 e \<noteq> None then 0x20 else base e);
               enh1 = (if first
                       then enh @ [\<lparr>mode = SetActivePosition, address = rowAddress rowLocation,
                                    data = 0\<rparr>]
                       else enh);
               enh2 = enh1 @ [entryTriplet e col];
               (row', enh') = encodeRow_loop cm rowLocation (Suc col) rest False enh2
           in (cell # row', enh')))"

definition encodeRow :: "x26encoder \<Rightarrow> jsstring \<Rightarrow> int \<Rightarrow> jsstring \<times> x26encoder" where
  "encodeRow enc str rowLocation =
     (let (row', enh') =
            encodeRow_loop (czechMap enc) rowLocation 0 (Array_from str) True (enhancements enc)
      in (join_cps row', enc\<lparr>enhancements := enh'\<rparr>))"

text \<open>
  The \<open>enhancementPackets\<close> getter: the packets are built on the first read and kept;
  \<open>rowsNeeded\<close> is \<open>Math.ceil(length / 13)\<close>.
\<close>

definition buildPackets :: "externals \<Rightarrow> enhancement list \<Rightarrow> byte list list" where
  "buildPackets ext enh =
     (let rowsNeeded = (length enh + 12) div 13
      in map (\<lambda>i. encodeX26Packet ext i (take 13 (drop (i * 13) enh))) [0..<rowsNeeded])"

definition enhancementPackets :: "externals \<Rightarrow> x26encoder \<Rightarrow> byte list list \<times> x26encoder" where
  "enhancementPackets ext enc =
     (case packets enc of
        Some ps \<Rightarrow> (ps, enc)
      | None \<Rightarrow> (let ps = buildPackets ext (enhancements enc)
                 in (ps, enc\<lparr>packets := Some ps\<rparr>)))"


section \<open>wst-encoder.js\<close>

text \<open>
  \<open>spaces(n)\<close> is \<open>Array(n).fill(' ').join('')\<close>: \<open>Array(n)\<close> throws a RangeError
  for a negative length. (It also does for a length of \<open>2^32\<close> or more; the one call
  passes at most 40.)
\<close>

definition spaces :: "int \<Rightarrow> error + jsstring" where
  "spaces n = (if n < 0 then Inl RangeError else Inr (replicate (nat n) 0x20))"

definition CZECH_TO_BASE :: "(nat \<times> nat) list" where
  "CZECH_TO_BASE =
    [(0xE1, 0x61), (0x10D, 0x63), (0x10F, 0x64), (0xE9, 0x65), (0x11B, 0x65), (0xED, 0x69),
     (0x148, 0x6E), (0xF3, 0x6F),
     (0x159, 0x72), (0x161, 0x73), (0x165, 0x74), (0xFA, 0x75), (0x16F, 0x75), (0xFD, 0x79),
     (0x17E, 0x7A),
     (0xC1, 0x41), (0x10C, 0x43), (0x10E, 0x44), (0xC9, 0x45), (0x11A, 0x45), (0xCD, 0x49),
     (0x147, 0x4E), (0xD3, 0x4F),
     (0x158, 0x52), (0x160, 0x53), (0x164, 0x54), (0xDA, 0x55), (0x16E, 0x55), (0xDD, 0x59),
     (0x17D, 0x5A)]"

text \<open>
  The callback of \<open>toBaseLetters\<close> on one element of \<open>Array.from(str)\<close>; its result is
  a string of one code unit.
\<close>

definition toBaseLetter :: "nat \<Rightarrow> nat" where
  "toBaseLetter c =
     (case map_of CZECH_TO_BASE c of
        Some b \<Rightarrow> b
      | None \<Rightarrow> (if c \<le> 0x7F then c else 0x3F))"

definition toBaseLetters :: "jsstring \<Rightarrow> jsstring" where
  "toBaseLetters str = map toBaseLetter (Array_from str)"

text \<open>
  The private fields of a \<open>WSTEncoder\<close> after its constructor has run. The constructor,
  which fills \<open>x26Opts\<close> from its arguments and the process environment, is not modelled.
\<close>

record wstencoder =
  magazine :: int
  page :: int
  startRow :: int
  doubleHeight :: bool
  diacriticsEncoding :: string
  x26Opts :: x26opts

definition encodePrefix :: "externals \<Rightarrow> int \<Rightarrow> int \<Rightarrow> byte list" where
  "encodePrefix ext mag packet =
     (let x = mag AND 0x07;
          y = packet AND 0x1F;
          byte4 = hammingEncodeNybble ext (x + push_bit 3 (y AND 1));
          byte5 = hammingEncodeNybble ext (drop_bit 1 y)
      in [0x55, 0x55, 0x27, byte4, byte5])"

definition encodeHeaderPacket :: "externals \<Rightarrow> int \<Rightarrow> int \<Rightarrow> int \<Rightarrow> int \<Rightarrow> byte list" where
  "encodeHeaderPacket ext mag pg pageSubCode erase =
     (let header = encodePrefix ext mag 0;
          pageUnits = pg AND 0xF;
          pageTens = drop_bit 4 pg AND 0xF;
          s1 = pageSubCode AND 0xF;
          s2 = drop_bit 4 pageSubCode AND 0x7;
          s3 = drop_bit 8 pageSubCode AND 0xF;
          s4 = drop_bit 12 pageSubCode AND 0x3;
          s2 = (if erase \<noteq> 0 then s2 OR push_bit 3 1 else s2);
          s4 = s4 OR push_bit 3 1;
          cb1 = (0 OR 1) OR push_bit 1 1;
          cb2 = 0;
          pageControls = map (\<lambda>nybble. hammingEncodeNybble ext (nybble AND 0xF))
                           [pageUnits, pageTens, s1, s2, s3, s4, cb1, cb2];
          chars = replicate 32 0x20
      in header @ pageControls @ chars)"

definition encodeDummy :: "externals \<Rightarrow> wstencoder \<Rightarrow> byte list list" where
  "encodeDummy ext enc = [encodeHeaderPacket ext (magazine enc) 0xFF 0x3F7E 0]"

text \<open>
  The template literal of \<open>#encodeDisplayRows\<close>, cut to 40 code units by
  \<open>substring(0, 40)\<close>; \<open>text.length\<close> counts code units.
\<close>

definition boxedText :: "jsstring \<Rightarrow> error + jsstring" where
  "boxedText text =
     (case spaces (40 - int (length text)) of
        Inl e \<Rightarrow> Inl e
      | Inr sp \<Rightarrow> Inr (take 40 ([0x0b, 0x0b] @ text @ [0x0a, 0x0a] @ sp)))"

text \<open>
  The \<open>latin2\<close> branch. \<open>latin2TextBytes\<close> is the variable \<open>textBytes\<close> of the
  callback, the payload before parity; \<open>latin2Row\<close> is the callback, \<open>latin2Rows\<close> is
  \<open>rows.map\<close> from row \<open>i\<close> on, where the first exception ends the call; \<open>row0\<close>
  is the parameter \<open>startRow\<close>.
\<close>

definition latin2TextBytes :: "jsstring \<Rightarrow> error + byte list" where
  "latin2TextBytes text =
     (case boxedText text of
        Inl e \<Rightarrow> Inl e
      | Inr boxed \<Rightarrow> Inr (TextEncoder_encode (toBaseLetters boxed)))"

definition latin2Row :: "externals \<Rightarrow> wstencoder \<Rightarrow> int \<Rightarrow> jsstring \<Rightarrow> nat \<Rightarrow> error + byte list" where
  "latin2Row ext enc row0 text i =
     (let prefix = encodePrefix ext (magazine enc) (row0 + int i)
      in case latin2TextBytes text of
           Inl e \<Rightarrow> Inl e
         | Inr textBytes \<Rightarrow> Inr (prefix @ applyParity ext textBytes))"

fun latin2Rows ::
  "externals \<Rightarrow> wstencoder \<Rightarrow> int \<Rightarrow> nat \<Rightarrow> jsstring list \<Rightarrow> error + byte list list" where
  "latin2Rows ext enc row0 i [] = Inr []"
| "latin2Rows ext enc row0 i (text # rest) =
     (case latin2Row ext enc row0 text i of
        Inl e \<Rightarrow> Inl e
      | Inr packet \<Rightarrow>
          (case latin2Rows ext enc row0 (Suc i) rest of
             Inl e \<Rightarrow> Inl e
           | Inr ps \<Rightarrow> Inr (packet # ps)))"

text \<open>
  The \<open>x26\<close> branch: the same with the row passed through the one \<open>X26Encoder\<close> of the
  call, whose state goes from row to row. The encoder is constructed before the first row
  is looked at.
\<close>

definition x26TextBytes ::
  "x26encoder \<Rightarrow> int \<Rightarrow> jsstring \<Rightarrow> error + (byte list \<times> x26encoder)" where
  "x26TextBytes x26 rowLocation text =
     (case boxedText text of
        Inl e \<Rightarrow> Inl e
      | Inr boxed \<Rightarrow>
          (let (textData, x26') = encodeRow x26 boxed rowLocation
           in Inr (TextEncoder_encode textData, x26')))"

definition x26Row ::
  "externals \<Rightarrow> wstencoder \<Rightarrow> int \<Rightarrow> x26encoder \<Rightarrow> jsstring \<Rightarrow> nat
     \<Rightarrow> error + (byte list \<times> x26encoder)" where
  "x26Row ext enc row0 x26 text i =
     (let prefix = encodePrefix ext (magazine enc) (row0 + int i)
      in case x26TextBytes x26 (row0 + int i) text of
           Inl e \<Rightarrow> Inl e
         | Inr (textBytes, x26') \<Rightarrow> Inr (prefix @ applyParity ext textBytes, x26'))"

fun x26Rows ::
  "externals \<Rightarrow> wstencoder \<Rightarrow> int \<Rightarrow> x26encoder \<Rightarrow> nat \<Rightarrow> jsstring list
     \<Rightarrow> error + (byte list list \<times> x26encoder)" where
  "x26Rows ext enc row0 x26 i [] = Inr ([], x26)"
| "x26Rows ext enc row0 x26 i (text # rest) =
     (case x26Row ext enc row0 x26 text i of
        Inl e \<Rightarrow> Inl e
      | Inr (packet, x26') \<Rightarrow>
          (case x26Rows ext enc row0 x26' (Suc i) rest of
             Inl e \<Rightarrow> Inl e
           | Inr (ps, x26'') \<Rightarrow> Inr (packet # ps, x26'')))"

definition encodeDisplayRows ::
  "externals \<Rightarrow> wstencoder \<Rightarrow> int \<Rightarrow> jsstring list \<Rightarrow> error + byte list list" where
  "encodeDisplayRows ext enc row0 rows =
     (if diacriticsEncoding enc = ''latin2'' then latin2Rows ext enc row0 0 rows
      else
        (case new_X26Encoder (x26Opts enc) of
           Inl e \<Rightarrow> Inl e
         | Inr x26encoder \<Rightarrow>
             (case x26Rows ext enc row0 x26encoder 0 rows of
                Inl e \<Rightarrow> Inl e
              | Inr (rowPackets, x26) \<Rightarrow>
                  (let enhancementPackets =
                         map (\<lambda>enhancement. encodePrefix ext (magazine enc) 26 @ enhancement)
                           (fst (enhancementPackets ext x26))
                   in Inr (enhancementPackets @ rowPackets)))))"

text \<open>
  \<open>encodeSubtitle(rows, { startRow })\<close>: \<open>rows\<close> is \<open>None\<close> when the argument is
  missing, \<open>startRowOpt\<close> is \<open>None\<close> when the option is.
\<close>

definition encodeSubtitle ::
  "externals \<Rightarrow> wstencoder \<Rightarrow> jsstring list option \<Rightarrow> int option \<Rightarrow> error + byte list list" where
  "encodeSubtitle ext enc rows startRowOpt =
     (let startRow' = (case startRowOpt of Some r \<Rightarrow> r | None \<Rightarrow> startRow enc);
          headerPacket = encodeHeaderPacket ext (magazine enc) (page enc) 0 1
      in case rows of
           None \<Rightarrow> Inr [headerPacket]
         | Some [] \<Rightarrow> Inr [headerPacket]
         | Some (r # rs) \<Rightarrow>
             (case encodeDisplayRows ext enc startRow' (r # rs) of
                Inl e \<Rightarrow> Inl e
              | Inr rowPackets \<Rightarrow> Inr (headerPacket # rowPackets)))"

section \<open>Numbers\<close>

text \<open>
  Times are JavaScript numbers, IEEE doubles. The model does not fix their arithmetic: a
  time is a value of any type \<open>'a\<close> with operations \<open>+\<close>, \<open>-\<close>, \<open>*\<close>, \<open>/\<close>,
  \<open><\<close> and \<open>\<le>\<close>, of which nothing is assumed, and \<open>num\<close> is the number that an
  integer (a length, a count, a literal) denotes. A result proved this way holds for the
  doubles with their rounding as well as for exact arithmetic.
\<close>

section \<open>titling-engine.js\<close>

definition MAX_LINES :: nat where "MAX_LINES = 2"
definition CHARS_PER_LINE :: nat where "CHARS_PER_LINE = 38"

text \<open>
  \<open>text.split(/\s+/)\<close>: the pieces between the maximal runs of white space, the empty
  pieces at the ends included; \<open>gap\<close> tells that the last code unit was white space.
\<close>

fun split_spaces :: "jsstring \<Rightarrow> bool \<Rightarrow> jsstring \<Rightarrow> jsstring list" where
  "split_spaces cur gap [] = [cur]"
| "split_spaces cur gap (c # cs) =
     (if is_space c
      then (if gap then split_spaces cur True cs else cur # split_spaces [] True cs)
      else split_spaces (cur @ [c]) False cs)"

definition words :: "jsstring \<Rightarrow> jsstring list" where
  "words text = filter (\<lambda>w. w \<noteq> []) (split_spaces [] False text)"

text \<open>
  \<open>wrapLines\<close>: the loop over the words with the variables \<open>result\<close> and \<open>line\<close>,
  and the push of the last line after it.
\<close>

fun wrapLines_loop :: "nat \<Rightarrow> jsstring list \<Rightarrow> jsstring list \<Rightarrow> jsstring \<Rightarrow> jsstring list" where
  "wrapLines_loop maxChars [] result line = (if line \<noteq> [] then result @ [line] else result)"
| "wrapLines_loop maxChars (word # ws) result line =
     (let next = (if line \<noteq> [] then line @ [0x20] @ word else word)
      in if length next \<le> maxChars then wrapLines_loop maxChars ws result next
         else wrapLines_loop maxChars ws
                (if line \<noteq> [] then result @ [line] else result)
                (if length word \<le> maxChars then word else take maxChars word))"

definition wrapLines :: "jsstring \<Rightarrow> nat \<Rightarrow> jsstring list" where
  "wrapLines text maxChars = wrapLines_loop maxChars (words text) [] []"

text \<open>
  A cue \<open>{ start, end, text }\<close> and a segment \<open>{ lines, start, end }\<close>; the field names
  carry a prefix because \<open>end\<close> and \<open>text\<close> are reserved words here.
\<close>

record 'a cue =
  cue_start :: 'a
  cue_end :: 'a
  cue_text :: jsstring

record 'a segment =
  seg_lines :: "jsstring list"
  seg_start :: 'a
  seg_end :: 'a

text \<open>
  The first loop of \<open>cueToSegments\<close>, \<open>for (i = 0; i < allLines.length; i += MAX_LINES)\<close>:
  round \<open>k\<close> has \<open>i = k * MAX_LINES\<close>.
\<close>

definition lineChunks :: "jsstring list \<Rightarrow> jsstring list list" where
  "lineChunks allLines =
     map (\<lambda>k. map (take CHARS_PER_LINE) (take MAX_LINES (drop (k * MAX_LINES) allLines)))
       [0..<(length allLines + MAX_LINES - 1) div MAX_LINES]"

text \<open>The timing loop: \<open>elapsed\<close> runs from segment to segment.\<close>

fun layoutSegments ::
  "(nat \<Rightarrow> 'a) \<Rightarrow> 'a \<Rightarrow> nat \<Rightarrow> 'a \<Rightarrow> jsstring list list
     \<Rightarrow> ('a :: {plus, times, inverse}) segment list" where
  "layoutSegments num duration totalChars elapsed [] = []"
| "layoutSegments num duration totalChars elapsed (chunk # rest) =
     (let segChars = length (concat chunk);
          segDuration = duration * (num segChars / num totalChars)
      in \<lparr>seg_lines = chunk, seg_start = elapsed, seg_end = elapsed + segDuration\<rparr>
         # layoutSegments num duration totalChars (elapsed + segDuration) rest)"

definition cueToSegments ::
  "(nat \<Rightarrow> 'a) \<Rightarrow> 'a cue \<Rightarrow> ('a :: {plus, minus, times, inverse}) segment list" where
  "cueToSegments num cue =
     (let duration = cue_end cue - cue_start cue;
          allLines = wrapLines (cue_text cue) CHARS_PER_LINE;
          chunks = lineChunks allLines
      in if length chunks = 0 then []
         else if length chunks = 1
         then [\<lparr>seg_lines = hd chunks, seg_start = cue_start cue, seg_end = cue_end cue\<rparr>]
         else
           (let totalChars = length (concat allLines);
                segments = layoutSegments num duration totalChars (cue_start cue) chunks
            in segments[length segments - 1 :=
                          (segments ! (length segments - 1))\<lparr>seg_end := cue_end cue\<rparr>]))"

definition cuesToSegments ::
  "(nat \<Rightarrow> 'a) \<Rightarrow> 'a cue list \<Rightarrow> ('a :: {plus, minus, times, inverse}) segment list" where
  "cuesToSegments num cues = concat (map (cueToSegments num) cues)"

section \<open>vtt-parser.js\<close>

text \<open>
  \<open>vttContent.split(/\r?\n/)\<close>: the content is cut at every line feed, and a carriage
  return right before the line feed belongs to the separator.
\<close>

definition strip_cr :: "jsstring \<Rightarrow> jsstring" where
  "strip_cr cur = (if cur \<noteq> [] \<and> last cur = 0x0D then butlast cur else cur)"

fun split_lines :: "jsstring \<Rightarrow> jsstring \<Rightarrow> jsstring list" where
  "split_lines cur [] = [cur]"
| "split_lines cur (c # cs) =
     (if c = 0x0A then strip_cr cur # split_lines [] cs else split_lines (cur @ [c]) cs)"

text \<open>
  The pieces of the two regular expressions. Each takes the rest of the line and returns
  what is left after its match, with the captured groups where there are any.
  \<open>digits n\<close> is \<open>\d{n}\<close>, \<open>lit c\<close> a literal character, \<open>arrow\<close> is
  \<open>\s*-->\s*\<close>.
\<close>

definition is_digit :: "nat \<Rightarrow> bool" where
  "is_digit u = (0x30 \<le> u \<and> u \<le> 0x39)"

fun digits :: "nat \<Rightarrow> jsstring \<Rightarrow> (jsstring \<times> jsstring) option" where
  "digits 0 s = Some ([], s)"
| "digits (Suc n) [] = None"
| "digits (Suc n) (c # cs) =
     (if is_digit c then map_option (\<lambda>(ds, r). (c # ds, r)) (digits n cs) else None)"

fun lit :: "nat \<Rightarrow> jsstring \<Rightarrow> jsstring option" where
  "lit c [] = None"
| "lit c (x # xs) = (if x = c then Some xs else None)"

definition arrow :: "jsstring \<Rightarrow> jsstring option" where
  "arrow s = do {
     r \<leftarrow> lit 0x2D (dropWhile is_space s);
     r \<leftarrow> lit 0x2D r;
     r \<leftarrow> lit 0x3E r;
     Some (dropWhile is_space r)
   }"

text \<open>
  \<open>(?:(\d{2}):)?(\d{2}):(\d{2})\.(\d{3})\<close>: the groups h, m, s, ms, where h is
  \<open>None\<close> when its group takes no part. The optional group is tried first. Where the
  match with it goes through, the sixth character is a colon, and the match without it,
  which needs a full stop there, cannot: so nothing after the time stamp can make the
  regular expression fall back from one to the other.
\<close>

type_synonym stamp = "jsstring option \<times> jsstring \<times> jsstring \<times> jsstring"

definition stampWithHours :: "jsstring \<Rightarrow> (stamp \<times> jsstring) option" where
  "stampWithHours s = do {
     (h, r) \<leftarrow> digits 2 s;
     r \<leftarrow> lit 0x3A r;
     (m, r) \<leftarrow> digits 2 r;
     r \<leftarrow> lit 0x3A r;
     (sec, r) \<leftarrow> digits 2 r;
     r \<leftarrow> lit 0x2E r;
     (ms, r) \<leftarrow> digits 3 r;
     Some ((Some h, m, sec, ms), r)
   }"

definition stampWithoutHours :: "jsstring \<Rightarrow> (stamp \<times> jsstring) option" where
  "stampWithoutHours s = do {
     (m, r) \<leftarrow> digits 2 s;
     r \<leftarrow> lit 0x3A r;
     (sec, r) \<leftarrow> digits 2 r;
     r \<leftarrow> lit 0x2E r;
     (ms, r) \<leftarrow> digits 3 r;
     Some ((None, m, sec, ms), r)
   }"

definition timeStamp :: "jsstring \<Rightarrow> (stamp \<times> jsstring) option" where
  "timeStamp s = (case stampWithHours s of Some x \<Rightarrow> Some x | None \<Rightarrow> stampWithoutHours s)"

text \<open>\<open>timeLine.match(timeRegex)\<close>: the groups 1 to 4 and 5 to 8.\<close>

definition timeRegex :: "jsstring \<Rightarrow> (stamp \<times> stamp) option" where
  "timeRegex line = do {
     (a, r) \<leftarrow> timeStamp line;
     r \<leftarrow> arrow r;
     (b, r) \<leftarrow> timeStamp r;
     Some (a, b)
   }"

text \<open>
  The regular expression of the first loop, \<open>\d{2}(:\d{2}){1,2}\.\d{3}\<close> on either side
  of the arrow: the repetition is tried twice first, then once.
\<close>

definition colonDigits :: "jsstring \<Rightarrow> jsstring option" where
  "colonDigits s = do { r \<leftarrow> lit 0x3A s; (ds, r) \<leftarrow> digits 2 r; Some r }"

definition dotMillis :: "jsstring \<Rightarrow> jsstring option" where
  "dotMillis s = do { r \<leftarrow> lit 0x2E s; (ds, r) \<leftarrow> digits 3 r; Some r }"

definition stampShape :: "jsstring \<Rightarrow> jsstring option" where
  "stampShape s = do {
     (ds, r) \<leftarrow> digits 2 s;
     r1 \<leftarrow> colonDigits r;
     (case colonDigits r1 \<bind> dotMillis of
        Some r3 \<Rightarrow> Some r3
      | None \<Rightarrow> dotMillis r1)
   }"

definition headerTest :: "jsstring \<Rightarrow> bool" where
  "headerTest line = (do { r \<leftarrow> stampShape line; r \<leftarrow> arrow r; stampShape r } \<noteq> None)"

text \<open>\<open>parseInt(s, 10)\<close> on a string of decimal digits, and \<open>toSeconds\<close>.\<close>

definition parseInt :: "jsstring \<Rightarrow> nat" where
  "parseInt s = foldl (\<lambda>n d. 10 * n + (d - 0x30)) 0 s"

definition toSeconds :: "(nat \<Rightarrow> 'a) \<Rightarrow> stamp \<Rightarrow> ('a :: {plus, inverse})" where
  "toSeconds num st =
     (case st of (h, m, s, ms) \<Rightarrow>
        (case h of Some hh \<Rightarrow> num (parseInt hh * 3600) | None \<Rightarrow> num 0)
          + num (parseInt m * 60) + num (parseInt s) + num (parseInt ms) / num 1000)"

text \<open>\<open>textLines.join(' ')\<close> and \<open>replace(/\s+/g, ' ')\<close>.\<close>

fun join_space :: "jsstring list \<Rightarrow> jsstring" where
  "join_space [] = []"
| "join_space [x] = x"
| "join_space (x # y # ys) = x @ [0x20] @ join_space (y # ys)"

fun collapse_spaces :: "bool \<Rightarrow> jsstring \<Rightarrow> jsstring" where
  "collapse_spaces gap [] = []"
| "collapse_spaces gap (c # cs) =
     (if is_space c
      then (if gap then collapse_spaces True cs else 0x20 # collapse_spaces True cs)
      else c # collapse_spaces False cs)"

text \<open>
  The main loop of \<open>parseVTT\<close> on the lines from index \<open>i\<close> on: a line that is no
  time line is skipped; after a time line the text lines run up to the first blank line,
  and that line is skipped with the closing \<open>i++\<close>.
\<close>

function parseCues :: "(nat \<Rightarrow> 'a) \<Rightarrow> jsstring list \<Rightarrow> ('a :: {plus, inverse}) cue list" where
  "parseCues num [] = []"
| "parseCues num (timeLine # rest) =
     (case timeRegex timeLine of
        None \<Rightarrow> parseCues num rest
      | Some (a, b) \<Rightarrow>
          (let start = toSeconds num a;
               end' = toSeconds num b;
               textLines = map trim (takeWhile (\<lambda>l. trim l \<noteq> []) rest);
               after = dropWhile (\<lambda>l. trim l \<noteq> []) rest;
               text = trim (collapse_spaces False (join_space textLines))
           in (if text \<noteq> []
               then [\<lparr>cue_start = start, cue_end = end', cue_text = text\<rparr>]
               else [])
              @ parseCues num (drop 1 after)))"
  by pat_completeness auto
termination
  by (relation "measure (\<lambda>(num, ls). length ls)")
     (auto simp: less_Suc_eq_le intro: order_trans [OF diff_le_self length_dropWhile_le])

definition parseVTT :: "(nat \<Rightarrow> 'a) \<Rightarrow> jsstring \<Rightarrow> ('a :: {plus, inverse}) cue list" where
  "parseVTT num vttContent =
     parseCues num (dropWhile (\<lambda>l. \<not> headerTest l) (split_lines [] vttContent))"

section \<open>vtt-titling-server.js: the scheduler\<close>

definition GAP_BEFORE_CLEAR_S :: nat where "GAP_BEFORE_CLEAR_S = 2"

text \<open>
  The module variables the tick reads and writes, and the calls it makes on the Caspar
  client. The tick timer is left out: a tick is one call of \<open>tick\<close>.
\<close>

record 'a scheduler =
  segments :: "'a segment list"
  lastShownSegmentIndex :: int
  timeMode :: string
  autonomousStartAt :: 'a
  autonomousStartWall :: 'a

datatype command = SendTitle "jsstring list" | ClearTitle

text \<open>
  \<open>getCurrentTime\<close>: \<open>now\<close> is \<open>Date.now()\<close>, \<open>oscTime\<close> is what
  \<open>oscTime.getTime()\<close> returns, \<open>None\<close> for \<open>null\<close>.
\<close>

definition getCurrentTime ::
  "(nat \<Rightarrow> 'a) \<Rightarrow> ('a :: {plus, minus, inverse}) scheduler \<Rightarrow> 'a \<Rightarrow> 'a option \<Rightarrow> 'a option" where
  "getCurrentTime num st now oscTime =
     (if timeMode st = ''autonomous''
      then Some (autonomousStartAt st + (now - autonomousStartWall st) / num 1000)
      else oscTime)"

text \<open>The search loop of \<open>tick\<close>: the first index whose segment holds \<open>t\<close>, or \<open>-1\<close>.\<close>

fun findCurrentIndex :: "('a :: ord) \<Rightarrow> 'a segment list \<Rightarrow> nat \<Rightarrow> int" where
  "findCurrentIndex t [] i = -1"
| "findCurrentIndex t (s # ss) i =
     (if seg_start s \<le> t \<and> t < seg_end s then int i else findCurrentIndex t ss (Suc i))"

text \<open>
  \<open>tick\<close>, given what \<open>getCurrentTime()\<close> returned. \<open>gapToNext\<close> is \<open>None\<close> for
  \<open>Infinity\<close>, which exceeds every gap.
\<close>

definition tick ::
  "(nat \<Rightarrow> 'a) \<Rightarrow> ('a :: {minus, ord}) scheduler \<Rightarrow> 'a option
     \<Rightarrow> command list \<times> 'a scheduler" where
  "tick num st time =
     (case time of
        None \<Rightarrow> ([], st)
      | Some t \<Rightarrow>
          if segments st = [] then
            (if 0 \<le> lastShownSegmentIndex st
             then ([ClearTitle], st\<lparr>lastShownSegmentIndex := -1\<rparr>)
             else ([], st))
          else
            (let currentIndex = findCurrentIndex t (segments st) 0
             in if 0 \<le> currentIndex then
                  (if currentIndex \<noteq> lastShownSegmentIndex st
                   then ([SendTitle (seg_lines (segments st ! nat currentIndex))],
                         st\<lparr>lastShownSegmentIndex := currentIndex\<rparr>)
                   else ([], st))
                else
                  (let nextSegmentStart =
                         map_option seg_start (find (\<lambda>s. t < seg_start s) (segments st));
                       gapToNext = map_option (\<lambda>n. n - t) nextSegmentStart
                   in if 0 \<le> lastShownSegmentIndex st
                      then (if (case gapToNext of
                                  None \<Rightarrow> True
                                | Some gap \<Rightarrow> num GAP_BEFORE_CLEAR_S < gap)
                            then ([ClearTitle], st\<lparr>lastShownSegmentIndex := -1\<rparr>)
                            else ([], st))
                      else ([], st))))"

section \<open>vtt-titling-server.js: the HTTP handler\<close>

text \<open>
  A parsed JSON value, and a string literal of the source as code units. \<open>getProp\<close> is
  the property read \<open>data.key\<close> for the four keys the handler reads (\<open>vttPath\<close>,
  \<open>path\<close>, \<open>timeMode\<close>, \<open>startAt\<close>): \<open>None\<close> is \<open>undefined\<close>, and reading a
  property of \<open>null\<close> throws a TypeError.
\<close>

datatype 'a json =
  JNull | JBool bool | JNum 'a | JStr jsstring | JArr "'a json list"
  | JObj "(jsstring \<times> 'a json) list"

definition ascii :: "string \<Rightarrow> jsstring" where
  "ascii s = map of_char s"

definition getProp :: "'a json \<Rightarrow> jsstring \<Rightarrow> error + 'a json option" where
  "getProp obj key =
     (case obj of
        JNull \<Rightarrow> Inl TypeError
      | JObj props \<Rightarrow> Inr (map_of props key)
      | _ \<Rightarrow> Inr None)"

record 'a response =
  statusCode :: nat
  body :: "'a json"

definition errorResponse :: "jsstring \<Rightarrow> 'a response" where
  "errorResponse message = \<lparr>statusCode = 400, body = JObj [(ascii ''error'', JStr message)]\<rparr>"

text \<open>
  \<open>loadVTT(vttPath, options)\<close>. \<open>readFile\<close> is \<open>fs.readFile(path, 'utf-8')\<close>: the
  content, or \<open>Inl\<close> the message of the error it throws. \<open>now\<close> is \<open>Date.now()\<close>.
  The result is the returned object, with \<open>startAt\<close> \<open>None\<close> for \<open>undefined\<close>, and the
  module variables after the call; \<open>startTitling\<close> only starts the tick timer.
\<close>

record 'a loadResult =
  res_cues :: nat
  res_segments :: nat
  res_timeMode :: string
  res_startAt :: "'a option"

definition loadVTT ::
  "(nat \<Rightarrow> 'a) \<Rightarrow> (jsstring \<Rightarrow> jsstring + jsstring) \<Rightarrow> 'a \<Rightarrow> 'a scheduler
     \<Rightarrow> jsstring \<Rightarrow> 'a json option \<Rightarrow> 'a option
     \<Rightarrow> jsstring + ('a loadResult \<times> ('a :: {plus, minus, times, inverse}) scheduler)" where
  "loadVTT num readFile now st vttPath optTimeMode optStartAt =
     (case readFile vttPath of
        Inl message \<Rightarrow> Inl message
      | Inr content \<Rightarrow>
          (let cues = parseVTT num content;
               segs = cuesToSegments num cues;
               st1 = st\<lparr>segments := segs, lastShownSegmentIndex := -1,
                        timeMode := (if optTimeMode = Some (JStr (ascii ''autonomous''))
                                     then ''autonomous'' else ''osc'')\<rparr>;
               st2 = (if timeMode st1 = ''autonomous''
                      then st1\<lparr>autonomousStartAt :=
                                  (case optStartAt of Some x \<Rightarrow> x | None \<Rightarrow> num 0),
                                autonomousStartWall := now\<rparr>
                      else st1)
           in Inr (\<lparr>res_cues = length cues, res_segments = length segs,
                     res_timeMode = timeMode st2,
                     res_startAt = (if timeMode st2 = ''autonomous''
                                    then Some (autonomousStartAt st2) else None)\<rparr>,
                   st2)))"

text \<open>
  The \<open>POST /titling\<close> branch of the request handler. \<open>parsed\<close> is the value of
  \<open>JSON.parse(body || '{}')\<close>, the variable \<open>data\<close> (here \<open>json\<close>), or \<open>None\<close> when
  the parser throws. The result is the response and
  the module variables, or \<open>Inl\<close> the exception that leaves the handler with no response
  written.
\<close>

definition okResponse :: "(nat \<Rightarrow> 'a) \<Rightarrow> 'a loadResult \<Rightarrow> 'a response" where
  "okResponse num r =
     \<lparr>statusCode = 200,
      body = JObj ([(ascii ''ok'', JBool True), (ascii ''cues'', JNum (num (res_cues r))),
                    (ascii ''segments'', JNum (num (res_segments r))),
                    (ascii ''timeMode'', JStr (ascii (res_timeMode r)))]
                   @ (case res_startAt r of
                        Some x \<Rightarrow> [(ascii ''startAt'', JNum x)]
                      | None \<Rightarrow> []))\<rparr>"

text \<open>The message \<open>timeMode must be "osc" or "autonomous"\<close>, with its quotation marks.\<close>

definition timeModeMessage :: jsstring where
  "timeModeMessage =
     ascii ''timeMode must be '' @ [0x22] @ ascii ''osc'' @ [0x22] @ ascii '' or ''
       @ [0x22] @ ascii ''autonomous'' @ [0x22]"

definition postTitling ::
  "(nat \<Rightarrow> 'a) \<Rightarrow> (jsstring \<Rightarrow> jsstring + jsstring) \<Rightarrow> 'a \<Rightarrow> 'a scheduler
     \<Rightarrow> 'a json option
     \<Rightarrow> error + ('a response \<times> ('a :: {plus, minus, times, inverse}) scheduler)" where
  "postTitling num readFile now st parsed =
     (case parsed of
        None \<Rightarrow> Inr (errorResponse (ascii ''Invalid JSON''), st)
      | Some json \<Rightarrow>
          (case getProp json (ascii ''vttPath'') of
             Inl e \<Rightarrow> Inl e
           | Inr v \<Rightarrow>
               (case (if v = None \<or> v = Some JNull then getProp json (ascii ''path'') else Inr v) of
                  Inl e \<Rightarrow> Inl e
                | Inr vttPath \<Rightarrow>
                    (case vttPath of
                       Some (JStr path) \<Rightarrow>
                         if path = [] then Inr (errorResponse (ascii ''Missing vttPath''), st)
                         else
                           (case getProp json (ascii ''timeMode'') of
                              Inl e \<Rightarrow> Inl e
                            | Inr timeModeOpt \<Rightarrow>
                                (case getProp json (ascii ''startAt'') of
                                   Inl e \<Rightarrow> Inl e
                                 | Inr startAt \<Rightarrow>
                                     if timeModeOpt \<noteq> None
                                        \<and> timeModeOpt \<noteq> Some (JStr (ascii ''osc''))
                                        \<and> timeModeOpt \<noteq> Some (JStr (ascii ''autonomous''))
                                     then Inr (errorResponse timeModeMessage, st)
                                     else
                                       (case loadVTT num readFile now st path timeModeOpt
                                               (case startAt of
                                                  Some (JNum x) \<Rightarrow> Some x | _ \<Rightarrow> None) of
                                          Inl message \<Rightarrow> Inr (errorResponse message, st)
                                        | Inr (result, st') \<Rightarrow>
                                            Inr (okResponse num result, st'))))
                     | _ \<Rightarrow> Inr (errorResponse (ascii ''Missing vttPath''), st)))))"

section \<open>The specification's description of the X/26 encoder\<close>




text \<open>
  The composition map of the options, entry by entry: the fourteen acute and ring letters,
  then the caron letters, which in \<open>g2\<close> mode carry the code of the letter in the G2 set
  of the variant. The set is the default one for a variant that names none of the four.
\<close>

definition variantSet :: "x26opts \<Rightarrow> g2set" where
  "variantSet opts =
     (case map_of G2_CARON_SETS (case g2Variant opts of Some v \<Rightarrow> v | None \<Rightarrow> ''default'') of
        Some s \<Rightarrow> s
      | None \<Rightarrow> the (map_of G2_CARON_SETS ''default''))"

definition g2Code :: "g2set \<Rightarrow> nat \<Rightarrow> int option" where
  "g2Code g2Set ch =
     (case indexOf CARON_LETTERS ch of
        Some i \<Rightarrow> Some (lower g2Set ! i)
      | None \<Rightarrow> (case indexOf CARON_LETTERS_UC ch of
                   Some j \<Rightarrow> Some (upper g2Set ! j)
                 | None \<Rightarrow> None))"

definition caronRow :: "string \<Rightarrow> int \<Rightarrow> g2set \<Rightarrow> (nat \<times> nat) list \<Rightarrow> nat \<Rightarrow> nat \<times> entry" where
  "caronRow enc idx g2Set tbl ch =
     (ch, \<lparr>base = the (map_of tbl ch), diacritic = Caron,
           g2 = (if enc = ''g2'' then g2Code g2Set ch else None),
           useCompose = (enc = ''compose''), entryCaronIndex = Some idx\<rparr>)"

definition compositionMap :: "x26opts \<Rightarrow> (nat \<times> entry) list" where
  "compositionMap opts =
     (let enc = (case caronEncoding opts of Some e \<Rightarrow> e | None \<Rightarrow> ''compose'');
          idx = max 1 (min 15 (case caronDiacriticIndex opts of Some i \<Rightarrow> i | None \<Rightarrow> 15));
          g2Set = variantSet opts
      in map (\<lambda>(ch, b, diac).
                (ch, \<lparr>base = b, diacritic = diac, g2 = None, useCompose = True,
                      entryCaronIndex = None\<rparr>)) acuteRing
         @ map (caronRow enc idx g2Set caronBase) CARON_LETTERS
         @ map (caronRow enc idx g2Set caronBaseUC) CARON_LETTERS_UC)"

text \<open>
  The options for which no encoder can be constructed: \<open>g2\<close> mode with a variant that
  names a property every object inherits. The documented variants are \<open>default\<close>,
  \<open>alt1\<close>, \<open>alt2\<close> and \<open>iso88592\<close>.
\<close>

definition inheritedVariant :: "x26opts \<Rightarrow> bool" where
  "inheritedVariant opts =
     (caronEncoding opts = Some ''g2''
      \<and> (case g2Variant opts of Some v \<Rightarrow> v \<in> set Object_prototype | None \<Rightarrow> False))"

definition documentedVariant :: "x26opts \<Rightarrow> bool" where
  "documentedVariant opts =
     (case g2Variant opts of
        Some v \<Rightarrow> v \<in> set [''default'', ''alt1'', ''alt2'', ''iso88592'']
      | None \<Rightarrow> True)"

text \<open>
  The Czech composition table of the specification in compose mode: letter, base letter and
  diacritic index (acute 2, ring 10, caron as configured).
\<close>

definition czechComposition :: "int \<Rightarrow> (nat \<times> nat \<times> int) list" where
  "czechComposition caronIndex =
    [(0xE1, 0x61, 2), (0xE9, 0x65, 2), (0xED, 0x69, 2), (0xF3, 0x6F, 2), (0xFA, 0x75, 2),
     (0xFD, 0x79, 2), (0x16F, 0x75, 10),
     (0xC1, 0x41, 2), (0xC9, 0x45, 2), (0xCD, 0x49, 2), (0xD3, 0x4F, 2), (0xDA, 0x55, 2),
     (0xDD, 0x59, 2), (0x16E, 0x55, 10),
     (0x10D, 0x63, caronIndex), (0x10F, 0x64, caronIndex), (0x11B, 0x65, caronIndex),
     (0x148, 0x6E, caronIndex), (0x159, 0x72, caronIndex), (0x161, 0x73, caronIndex),
     (0x165, 0x74, caronIndex), (0x17E, 0x7A, caronIndex),
     (0x10C, 0x43, caronIndex), (0x10E, 0x44, caronIndex), (0x11A, 0x45, caronIndex),
     (0x147, 0x4E, caronIndex), (0x158, 0x52, caronIndex), (0x160, 0x53, caronIndex),
     (0x164, 0x54, caronIndex), (0x17D, 0x5A, caronIndex)]"

text \<open>The configured caron index: 15 by default, kept within 1..15.\<close>

definition configuredCaronIndex :: "x26opts \<Rightarrow> int" where
  "configuredCaronIndex opts =
     (case caronDiacriticIndex opts of None \<Rightarrow> 15 | Some i \<Rightarrow> max 1 (min 15 i))"

definition composeMode :: "x26opts \<Rightarrow> bool" where
  "composeMode opts = (caronEncoding opts = None \<or> caronEncoding opts = Some ''compose'')"

text \<open>
  The triplet of a letter with base \<open>fst bi\<close> and diacritic index \<open>snd bi\<close> at column
  \<open>c\<close>, and the triplets of the table letters of a row whose first column is \<open>col\<close>,
  in column order.
\<close>

definition composedTriplet :: "nat \<times> int \<Rightarrow> nat \<Rightarrow> enhancement" where
  "composedTriplet bi c = \<lparr>mode = 0x11 + (snd bi - 1), address = int c, data = int (fst bi)\<rparr>"

definition columnTriplets :: "x26opts \<Rightarrow> nat \<Rightarrow> nat list \<Rightarrow> enhancement list" where
  "columnTriplets opts col row =
     concat (map (\<lambda>(c, ch). case map_of (czechComposition (configuredCaronIndex opts)) ch of
                                None \<Rightarrow> [] | Some bi \<Rightarrow> [composedTriplet bi c])
                (enumerate col row))"

definition composeEntry :: "entry \<Rightarrow> nat \<times> int" where
  "composeEntry e = (base e, case entryCaronIndex e of Some i \<Rightarrow> i | None \<Rightarrow> diacritic e)"

text \<open>
  The thirty Czech letters of the composition table, and the columns of a row that hold
  one of them.
\<close>

definition czechLetters :: "nat list" where
  "czechLetters = map fst (czechComposition 15)"

definition letterColumns :: "nat list \<Rightarrow> nat list" where
  "letterColumns row = map fst (filter (\<lambda>(c, ch). ch \<in> set czechLetters) (enumerate 0 row))"

text \<open>
  The triplets the entries of a composition map give for the letters of a row, whatever
  the caron encoding.
\<close>

definition loopTriplets :: "(nat \<times> entry) list \<Rightarrow> nat \<Rightarrow> nat list \<Rightarrow> enhancement list" where
  "loopTriplets cm col row =
     concat (map (\<lambda>(c, ch). case map_of cm ch of None \<Rightarrow> [] | Some e \<Rightarrow> [entryTriplet e c])
                (enumerate col row))"

section \<open>The specification's description of the display rows\<close>

text \<open>
  Folding in latin2 mode: a Czech letter becomes its base letter, a 7-bit character stays,
  every other code point becomes \<open>?\<close>.
\<close>

definition latin2Fold :: "nat \<Rightarrow> nat" where
  "latin2Fold c =
     (case map_of (czechComposition 15) c of
        Some bi \<Rightarrow> fst bi
      | None \<Rightarrow> (if c < 0x80 then c else 0x3F))"

text \<open>
  The cell the X/26 encoder leaves in the row for a code point: a space for a precomposed
  G2 letter, the base letter for a composed one, the code point itself otherwise.
\<close>

definition rowCell :: "(nat \<times> entry) list \<Rightarrow> nat \<Rightarrow> nat" where
  "rowCell cm c =
     (case map_of cm c of None \<Rightarrow> c | Some e \<Rightarrow> (if g2 e \<noteq> None then 0x20 else base e))"

text \<open>
  The framed row cut to 40 places: the start markers, the first 38 characters of the row,
  what is left of the two end markers, and the padding. For a row of at most 36
  characters nothing is cut.
\<close>

definition cutFrame :: "nat list \<Rightarrow> nat list" where
  "cutFrame row =
     [0x0B, 0x0B] @ take 38 row @ take (38 - length row) [0x0A, 0x0A]
       @ replicate (36 - length row) 0x20"

section \<open>The specification's description of the scheduler\<close>

text \<open>
  The gap from \<open>t\<close> to the start of the next segment exceeds two seconds; with no next
  segment the gap is infinite and does.
\<close>

definition gapExceeds :: "(nat \<Rightarrow> 'a) \<Rightarrow> ('a :: {minus, ord}) \<Rightarrow> 'a segment list \<Rightarrow> bool" where
  "gapExceeds num t segs =
     (case find (\<lambda>s. t < seg_start s) segs of
        None \<Rightarrow> True
      | Some s \<Rightarrow> num 2 < seg_start s - t)"

section \<open>The specification's description of the HTTP interface\<close>

text \<open>
  A field of the request body (\<open>None\<close> when the body is no object or has no such
  field); the path the request names, the first of \<open>vttPath\<close> and \<open>path\<close> that is
  neither missing nor null, when it is a non-empty string; a time mode that is missing,
  \<open>"osc"\<close> or \<open>"autonomous"\<close>; a request that names a path, has a valid time mode and
  whose file can be read; and the body of the answer to such a request.
\<close>

definition jsonField :: "'a json \<Rightarrow> string \<Rightarrow> 'a json option" where
  "jsonField json key = (case json of JObj props \<Rightarrow> map_of props (ascii key) | _ \<Rightarrow> None)"

definition requestedPath :: "'a json \<Rightarrow> jsstring option" where
  "requestedPath json =
     (case (case jsonField json ''vttPath'' of
              None \<Rightarrow> jsonField json ''path''
            | Some JNull \<Rightarrow> jsonField json ''path''
            | Some v \<Rightarrow> Some v) of
        Some (JStr p) \<Rightarrow> (if p = [] then None else Some p)
      | _ \<Rightarrow> None)"

definition validTimeMode :: "'a json \<Rightarrow> bool" where
  "validTimeMode json =
     (jsonField json ''timeMode'' = None \<or> jsonField json ''timeMode'' = Some (JStr (ascii ''osc''))
      \<or> jsonField json ''timeMode'' = Some (JStr (ascii ''autonomous'')))"

definition accepted :: "(jsstring \<Rightarrow> jsstring + jsstring) \<Rightarrow> 'a json \<Rightarrow> bool" where
  "accepted readFile json =
     (case requestedPath json of
        None \<Rightarrow> False
      | Some p \<Rightarrow> validTimeMode json \<and> (case readFile p of Inl m \<Rightarrow> False | Inr c \<Rightarrow> True))"

definition successBody :: "(nat \<Rightarrow> 'a) \<Rightarrow> 'a json \<Rightarrow> jsstring \<Rightarrow> ('a :: {plus, minus, times, inverse}) json" where
  "successBody num json content =
     JObj ([(ascii ''ok'', JBool True),
            (ascii ''cues'', JNum (num (length (parseVTT num content)))),
            (ascii ''segments'', JNum (num (length (cuesToSegments num (parseVTT num content))))),
            (ascii ''timeMode'',
               JStr (ascii (if jsonField json ''timeMode'' = Some (JStr (ascii ''autonomous''))
                            then ''autonomous'' else ''osc'')))]
           @ (if jsonField json ''timeMode'' = Some (JStr (ascii ''autonomous''))
              then [(ascii ''startAt'',
                     JNum (case jsonField json ''startAt'' of Some (JNum x) \<Rightarrow> x | _ \<Rightarrow> num 0))]
              else []))"

section \<open>Example inputs\<close>

text \<open>
  A choice of the four imported functions for evaluating examples: seven-, five- and six-bit
  masks, and no protection bits at all.
\<close>

definition plainExternals :: externals where
  "plainExternals = \<lparr>bitmask = (\<lambda>n. 2 ^ nat n - 1), hammingEncodeNybble = of_int,
     hammingEncode24 = (\<lambda>v. [of_int v, of_int (drop_bit 8 v), of_int (drop_bit 16 v)]),
     applyParity = id\<rparr>"

definition defaultOpts :: x26opts where
  "defaultOpts = \<lparr>caronEncoding = None, caronDiacriticIndex = None, g2Variant = None\<rparr>"

text \<open>The encoder \<open>new WSTEncoder()\<close> builds from its defaults, and one in latin2 mode.\<close>

definition defaultEncoder :: wstencoder where
  "defaultEncoder = \<lparr>magazine = 0, page = 0x01, startRow = 19, doubleHeight = False,
     diacriticsEncoding = ''x26'', x26Opts = defaultOpts\<rparr>"

definition latin2Encoder :: wstencoder where
  "latin2Encoder = defaultEncoder\<lparr>diacriticsEncoding := ''latin2''\<rparr>"

text \<open>
  The encoder \<open>new X26Encoder({})\<close> returns, and the same after a row with one
  caron letter.
\<close>

definition defaultX26 :: x26encoder where
  "defaultX26 = \<lparr>enhancements = [], packets = None, czechMap = compositionMap defaultOpts\<rparr>"


text \<open>
  An encoder in \<open>g2\<close> mode whose variant is \<open>constructor\<close>, and a row of 21 characters
  outside the Basic Multilingual Plane (U+1F600), each two code units.
\<close>

definition constructorEncoder :: wstencoder where
  "constructorEncoder =
     defaultEncoder\<lparr>x26Opts := \<lparr>caronEncoding = Some ''g2'', caronDiacriticIndex = None,
                                 g2Variant = Some ''constructor''\<rparr>\<rparr>"

definition astralRow :: jsstring where
  "astralRow = concat (replicate 21 [0xD83D, 0xDE00])"

text \<open>The framed start of the row of scenario 4 (L, o, d with caron, space, c with caron, e, r with caron, i with acute), as code units.\<close>

definition rowLod :: jsstring where
  "rowLod = [0x0B, 0x0B, 0x4C, 0x6F, 0x10F, 0x20, 0x10D, 0x65, 0x159, 0xED]"

text \<open>
  A cue of three words of 19 letters, which wrap into three lines and so two segments, a
  cue of one line, and the scheduler of scenario 2 with its first title on screen.
\<close>

definition threeWords :: jsstring where
  "threeWords = replicate 19 0x61 @ [0x20] @ replicate 19 0x62 @ [0x20] @ replicate 19 0x63"

definition cue3 :: "real cue" where
  "cue3 = \<lparr>cue_start = 0, cue_end = 3, cue_text = threeWords\<rparr>"

definition cue1 :: "real cue" where
  "cue1 = \<lparr>cue_start = 1, cue_end = 3, cue_text = [0x48, 0x69]\<rparr>"

definition twoCues :: "real scheduler" where
  "twoCues = \<lparr>segments = [\<lparr>seg_lines = [[0x41]], seg_start = 0, seg_end = 1\<rparr>,
                           \<lparr>seg_lines = [[0x42]], seg_start = 3 / 2, seg_end = 5 / 2\<rparr>],
              lastShownSegmentIndex = 0, timeMode = ''autonomous'',
              autonomousStartAt = 0, autonomousStartWall = 0\<rparr>"

text \<open>
  A VTT file whose one cue ends before it starts: the time line
  \<open>00:05.000 --> 00:01.000\<close> and the text line \<open>Hi\<close>.
\<close>

definition backwardsVtt :: jsstring where
  "backwardsVtt = [0x30, 0x30, 0x3a, 0x30, 0x35, 0x2e, 0x30, 0x30, 0x30, 0x20, 0x2d, 0x2d, 0x3e, 0x20, 0x30, 0x30, 0x3a, 0x30, 0x31, 0x2e, 0x30, 0x30, 0x30, 0xa, 0x48, 0x69]"

text \<open>
  An idle scheduler, a file system with the one file \<open>a.vtt\<close>, and two request bodies
  for it: one with the time mode \<open>"external"\<close>, one with \<open>"autonomous"\<close>.
\<close>

definition idle :: "real scheduler" where
  "idle = \<lparr>segments = [], lastShownSegmentIndex = -1, timeMode = ''osc'',
            autonomousStartAt = 0, autonomousStartWall = 0\<rparr>"

definition oneFile :: "jsstring \<Rightarrow> jsstring + jsstring" where
  "oneFile p = (if p = ascii ''a.vtt'' then Inr backwardsVtt else Inl (ascii ''ENOENT''))"

definition externalRequest :: "real json" where
  "externalRequest = JObj [(ascii ''vttPath'', JStr (ascii ''a.vtt'')),
                           (ascii ''timeMode'', JStr (ascii ''external''))]"

definition autonomousRequest :: "real json" where
  "autonomousRequest = JObj [(ascii ''vttPath'', JStr (ascii ''a.vtt'')),
                             (ascii ''timeMode'', JStr (ascii ''autonomous'')),
                             (ascii ''startAt'', JNum 90)]"

section \<open>Properties of the X/26 encoder\<close>









lemma caronG2_Own: "caronG2 (Own s) ch = Inr (g2Code s ch)"
  by (simp add: caronG2_def g2Code_def split: option.split)

lemma caronEntries_Own:
  "caronEntries enc idx (Own s) tbl chs = Inr (map (caronRow enc idx s tbl) chs)"
  by (induction chs) (auto simp: caronEntry_def caronRow_def caronG2_Own)

lemma caronEntries_not_g2:
  "enc \<noteq> ''g2'' \<Longrightarrow> caronEntries enc idx v tbl chs = Inr (map (caronRow enc idx s tbl) chs)"
  by (induction chs) (simp_all add: caronEntry_def caronRow_def)

lemma caronEntries_Inherited:
  "caronEntries ''g2'' idx Inherited tbl CARON_LETTERS = Inl TypeError"
  by (simp add: CARON_LETTERS_def caronEntry_def caronG2_def)

lemma G2_CARON_SETS_get_inherited:
  "v \<in> set Object_prototype \<Longrightarrow> G2_CARON_SETS_get v = Some Inherited"
  by (auto simp: Object_prototype_def G2_CARON_SETS_get_def G2_CARON_SETS_def)

lemma G2_CARON_SETS_get_other:
  "v \<notin> set Object_prototype \<Longrightarrow>
     (case G2_CARON_SETS_get v of
        Some x \<Rightarrow> x | None \<Rightarrow> Own (the (map_of G2_CARON_SETS ''default'')))
       = Own (case map_of G2_CARON_SETS v of
                Some s \<Rightarrow> s | None \<Rightarrow> the (map_of G2_CARON_SETS ''default''))"
  by (simp add: G2_CARON_SETS_get_def split: option.split)

lemma default_not_inherited: "''default'' \<notin> set Object_prototype"
  by (simp add: Object_prototype_def)

lemma buildCzechMap_inherited:
  assumes "inheritedVariant opts"
  shows "buildCzechMap opts = Inl TypeError"
proof -
  from assms obtain v where enc: "caronEncoding opts = Some ''g2''"
    and v: "g2Variant opts = Some v" "v \<in> set Object_prototype"
    by (auto simp: inheritedVariant_def split: option.splits)
  show ?thesis
    unfolding buildCzechMap_def
    by (simp only: enc v option.case Let_def G2_CARON_SETS_get_inherited [OF v(2)]
          caronEntries_Inherited sum.case)
qed

lemma buildCzechMap_constructed:
  assumes "\<not> inheritedVariant opts"
  shows "buildCzechMap opts = Inr (compositionMap opts)"
proof (cases "caronEncoding opts = Some ''g2''")
  case False
  then have ne: "(case caronEncoding opts of Some e \<Rightarrow> e | None \<Rightarrow> ''compose'') \<noteq> ''g2''"
    by (auto split: option.splits)
  show ?thesis
    unfolding buildCzechMap_def compositionMap_def Let_def
    by (simp add: caronEntries_not_g2 [OF ne, where s = "variantSet opts"])
next
  case True
  with assms have "(case g2Variant opts of Some v \<Rightarrow> v | None \<Rightarrow> ''default'') \<notin> set Object_prototype"
    by (auto simp: inheritedVariant_def default_not_inherited split: option.splits)
  from G2_CARON_SETS_get_other [OF this] show ?thesis
    unfolding buildCzechMap_def compositionMap_def Let_def
    by (simp add: caronEntries_Own variantSet_def)
qed

lemma buildCzechMap_eq:
  "buildCzechMap opts
     = (if inheritedVariant opts then Inl TypeError else Inr (compositionMap opts))"
  by (simp add: buildCzechMap_inherited buildCzechMap_constructed)

lemma buildCzechMap_Inr: "buildCzechMap opts = Inr cm \<Longrightarrow> cm = compositionMap opts"
  by (simp add: buildCzechMap_eq split: if_splits)

lemma new_X26Encoder_eq:
  "new_X26Encoder opts
     = (if inheritedVariant opts then Inl TypeError
        else Inr \<lparr>enhancements = [], packets = None, czechMap = compositionMap opts\<rparr>)"
  by (simp add: new_X26Encoder_def buildCzechMap_eq)

lemma defaultOpts_constructed: "\<not> inheritedVariant defaultOpts"
  by (simp add: inheritedVariant_def defaultOpts_def)

lemma new_X26Encoder_default: "new_X26Encoder defaultOpts = Inr defaultX26"
  by (simp add: new_X26Encoder_eq defaultOpts_constructed defaultX26_def)

lemma buildCzechMap_default: "buildCzechMap defaultOpts = Inr (czechMap defaultX26)"
  by (simp add: buildCzechMap_eq defaultOpts_constructed defaultX26_def)

lemma composeMode_enc:
  "composeMode opts \<Longrightarrow> (case caronEncoding opts of Some e \<Rightarrow> e | None \<Rightarrow> ''compose'') = ''compose''"
  by (auto simp: composeMode_def)

lemma compositionMap_compose:
  assumes "composeMode opts"
  shows "map (\<lambda>(ch, e). (ch, composeEntry e)) (compositionMap opts)
           = czechComposition (configuredCaronIndex opts)"
  unfolding compositionMap_def composeMode_enc [OF assms]
  by (simp add: Let_def czechComposition_def configuredCaronIndex_def
      composeEntry_def acuteRing_def caronRow_def CARON_LETTERS_def CARON_LETTERS_UC_def
      caronBase_def caronBaseUC_def Acute_def Ring_def Caron_def split: option.split)

lemma compositionMap_useCompose:
  assumes "composeMode opts"
  shows "list_all (\<lambda>(ch, e). useCompose e \<and> base e < 128) (compositionMap opts)"
  unfolding compositionMap_def composeMode_enc [OF assms]
  by (simp add: Let_def acuteRing_def caronRow_def CARON_LETTERS_def CARON_LETTERS_UC_def
      caronBase_def caronBaseUC_def)

lemma map_of_compose:
  assumes "composeMode opts"
  shows "map_of (czechComposition (configuredCaronIndex opts)) ch
           = map_option composeEntry (map_of (compositionMap opts) ch)"
proof -
  have "map_of (map (\<lambda>(ch, e). (ch, composeEntry e)) (compositionMap opts)) ch
          = map_option composeEntry (map_of (compositionMap opts) ch)"
    by (simp add: map_of_map)
  then show ?thesis using compositionMap_compose [OF assms] by simp
qed

lemma and_7f: "n < 128 \<Longrightarrow> int n AND 0x7f = int n"
proof -
  assume "n < 128"
  then have "n mod 2 ^ 7 = n" by simp
  then have "take_bit 7 (int n) = int n" by (simp add: take_bit_eq_mod flip: of_nat_mod)
  then show ?thesis by (simp add: take_bit_eq_mask mask_eq_exp_minus_1)
qed

lemma entryTriplet_compose:
  assumes "useCompose e" and "base e < 128"
  shows "entryTriplet e c = composedTriplet (composeEntry e) c"
  using assms
  by (simp add: entryTriplet_def composedTriplet_def composeEntry_def DiacriticBase_def and_7f)


lemma compose_entry_facts:
  assumes "composeMode opts" and "map_of (compositionMap opts) ch = Some e"
  shows "useCompose e" and "base e < 128"
proof -
  from assms(2) have "(ch, e) \<in> set (compositionMap opts)" by (rule map_of_SomeD)
  with compositionMap_useCompose [OF assms(1)] show "useCompose e" and "base e < 128"
    by (auto simp: list_all_iff)
qed

lemma encodeRow_loop_enh:
  "snd (encodeRow_loop cm rl col cs first enh) =
     enh @ (if first \<and> (\<exists>ch\<in>set cs. map_of cm ch \<noteq> None)
            then [\<lparr>mode = 0x04, address = (if rl = 24 then 40 else 40 + rl), data = 0\<rparr>]
            else [])
         @ loopTriplets cm col cs"
proof (induction cs arbitrary: col first enh)
  case Nil
  show ?case by (simp add: loopTriplets_def)
next
  case (Cons ch rest)
  show ?case
  proof (cases "map_of cm ch")
    case None
    with Cons.IH [of "Suc col" first enh] show ?thesis
      by (simp add: loopTriplets_def split_beta)
  next
    case (Some e)
    with Cons.IH [of "Suc col" False] show ?thesis
      by (simp add: loopTriplets_def split_beta Let_def SetActivePosition_def rowAddress_def)
  qed
qed

lemma address_entryTriplet: "address (entryTriplet e c) = int c"
  by (simp add: entryTriplet_def split: option.split)

lemma loopTriplets_address:
  "map address (loopTriplets cm col cs)
     = map (\<lambda>p. int (fst p)) (filter (\<lambda>(c, ch). map_of cm ch \<noteq> None) (enumerate col cs))"
  by (induction cs arbitrary: col)
     (auto simp: loopTriplets_def address_entryTriplet split: option.splits)

lemma compositionMap_keys: "map fst (compositionMap opts) = czechLetters"
  by (simp add: compositionMap_def Let_def czechLetters_def czechComposition_def acuteRing_def
        caronRow_def CARON_LETTERS_def CARON_LETTERS_UC_def comp_def split_beta)

lemma map_of_compositionMap:
  "map_of (compositionMap opts) ch \<noteq> None \<longleftrightarrow> ch \<in> set czechLetters"
proof -
  have "fst ` set (compositionMap opts) = set czechLetters"
    using compositionMap_keys [of opts] by (metis set_map)
  then show ?thesis by (simp add: map_of_eq_None_iff)
qed

lemma compositionMap_indices:
  "list_all (\<lambda>(ch, e). 1 \<le> diacritic e
                \<and> (case entryCaronIndex e of Some i \<Rightarrow> 1 \<le> i | None \<Rightarrow> True))
     (compositionMap opts)"
  by (simp add: compositionMap_def Let_def acuteRing_def caronRow_def CARON_LETTERS_def
        CARON_LETTERS_UC_def Acute_def Ring_def Caron_def)

lemma mode_entryTriplet:
  assumes "1 \<le> diacritic e"
    and "case entryCaronIndex e of Some i \<Rightarrow> 1 \<le> i | None \<Rightarrow> True"
  shows "mode (entryTriplet e c) \<noteq> 0x04"
  using assms
  by (auto simp: entryTriplet_def DiacriticBase_def G2Character_def split: option.splits)

lemma loopTriplets_modes:
  "list_all (\<lambda>t. mode t \<noteq> 0x04) (loopTriplets (compositionMap opts) col cs)"
proof -
  have "mode (entryTriplet e c) \<noteq> 0x04" if "map_of (compositionMap opts) ch = Some e" for ch e c
  proof -
    from that have "(ch, e) \<in> set (compositionMap opts)" by (rule map_of_SomeD)
    with compositionMap_indices [of opts]
    have "1 \<le> diacritic e"
      and "case entryCaronIndex e of Some i \<Rightarrow> 1 \<le> i | None \<Rightarrow> True"
      by (auto simp: list_all_iff)
    then show ?thesis by (rule mode_entryTriplet)
  qed
  then show ?thesis
    by (auto simp: loopTriplets_def list_all_iff split: option.splits)
qed

lemma loopTriplets_compose:
  assumes cm: "composeMode opts"
  shows "loopTriplets (compositionMap opts) col cs = columnTriplets opts col cs"
proof -
  have "(case map_of (compositionMap opts) ch of None \<Rightarrow> [] | Some e \<Rightarrow> [entryTriplet e c])
          = (case map_of (czechComposition (configuredCaronIndex opts)) ch of
               None \<Rightarrow> [] | Some bi \<Rightarrow> [composedTriplet bi c])" for c ch
  proof (cases "map_of (compositionMap opts) ch")
    case None
    then show ?thesis by (simp add: map_of_compose [OF cm])
  next
    case (Some e)
    have "entryTriplet e c = composedTriplet (composeEntry e) c"
      using compose_entry_facts [OF cm Some] by (rule entryTriplet_compose)
    with Some show ?thesis by (simp add: map_of_compose [OF cm])
  qed
  then show ?thesis by (simp add: loopTriplets_def columnTriplets_def)
qed

text \<open>
  Claim C1. For a row that holds at least one letter of the composition table,
  \<open>encodeRow\<close> with a row location in 1..24 appends to the accumulated triplets first one
  SetActivePosition triplet (mode \<open>0x04\<close>, data 0, address 40 for row 24 and
  \<open>40 + rowLocation\<close> otherwise) and then, in column order, one triplet for each table
  letter, whose address is the 0-based column of the letter. None of these has mode
  \<open>0x04\<close>, so the row has exactly one SetActivePosition triplet. In compose mode the
  triplet of a letter has mode \<open>0x11 + (diacritic_index - 1)\<close> and as data the ASCII code
  of the base letter.
\<close>

theorem encodeRow_compose_triplets:
  assumes "buildCzechMap opts = Inr (czechMap enc)"
    and "1 \<le> rowLocation" and "rowLocation \<le> 24"
    and "\<exists>ch\<in>set (Array_from str). ch \<in> set czechLetters"
  shows "\<exists>ts. enhancements (snd (encodeRow enc str rowLocation))
                = enhancements enc
                  @ \<lparr>mode = 0x04,
                     address = (if rowLocation = 24 then 40 else 40 + rowLocation),
                     data = 0\<rparr> # ts
           \<and> map address ts = map int (letterColumns (Array_from str))
           \<and> list_all (\<lambda>t. mode t \<noteq> 0x04) ts
           \<and> (composeMode opts \<longrightarrow> ts = columnTriplets opts 0 (Array_from str))"
proof -
  let ?ts = "loopTriplets (compositionMap opts) 0 (Array_from str)"
  from assms(1) have cm: "czechMap enc = compositionMap opts" by (rule buildCzechMap_Inr)
  from assms(4) have "\<exists>ch\<in>set (Array_from str). map_of (compositionMap opts) ch \<noteq> None"
    using map_of_compositionMap [of opts] by blast
  then have "enhancements (snd (encodeRow enc str rowLocation))
                = enhancements enc
                  @ \<lparr>mode = 0x04,
                     address = (if rowLocation = 24 then 40 else 40 + rowLocation),
                     data = 0\<rparr> # ?ts"
    using encodeRow_loop_enh
      [of "compositionMap opts" rowLocation 0 "Array_from str" True "enhancements enc"]
    by (simp add: encodeRow_def split_beta cm)
  moreover have "map address ?ts = map int (letterColumns (Array_from str))"
    unfolding loopTriplets_address letterColumns_def map_of_compositionMap
    by (simp add: comp_def)
  moreover have "list_all (\<lambda>t. mode t \<noteq> 0x04) ?ts"
    by (rule loopTriplets_modes)
  moreover have "composeMode opts \<longrightarrow> ?ts = columnTriplets opts 0 (Array_from str)"
    by (simp add: loopTriplets_compose)
  ultimately show ?thesis by blast
qed

theorem encodeRow_compose_triplets_witness:
  "new_X26Encoder defaultOpts = Inr defaultX26
   \<and> buildCzechMap defaultOpts = Inr (czechMap defaultX26)
   \<and> (1::int) \<le> 19 \<and> (19::int) \<le> 24
   \<and> (\<exists>ch\<in>set (Array_from rowLod). ch \<in> set czechLetters)
   \<and> enhancements (snd (encodeRow defaultX26 rowLod 19))
       = [\<lparr>mode = 0x04, address = 59, data = 0\<rparr>,
          \<lparr>mode = 0x1F, address = 4, data = 0x64\<rparr>,
          \<lparr>mode = 0x1F, address = 6, data = 0x63\<rparr>,
          \<lparr>mode = 0x1F, address = 8, data = 0x72\<rparr>,
          \<lparr>mode = 0x12, address = 9, data = 0x69\<rparr>]"
proof -
  have h1: "composeMode defaultOpts" by (simp add: composeMode_def defaultOpts_def)
  have h2: "buildCzechMap defaultOpts = Inr (czechMap defaultX26)"
    by (rule buildCzechMap_default)
  have e: "enhancements defaultX26 = []" by (simp add: defaultX26_def)
  have af: "Array_from rowLod = [0x0B, 0x0B, 0x4C, 0x6F, 0x10F, 0x20, 0x10D, 0x65, 0x159, 0xED]"
    by (simp add: rowLod_def is_lead_def)
  have ci: "configuredCaronIndex defaultOpts = 15"
    by (simp add: configuredCaronIndex_def defaultOpts_def)
  have h5: "\<exists>ch\<in>set (Array_from rowLod). ch \<in> set czechLetters"
    unfolding af by (simp add: czechLetters_def czechComposition_def)
  have ct: "columnTriplets defaultOpts 0 (Array_from rowLod) =
         [\<lparr>mode = 0x1F, address = 4, data = 0x64\<rparr>,
          \<lparr>mode = 0x1F, address = 6, data = 0x63\<rparr>,
          \<lparr>mode = 0x1F, address = 8, data = 0x72\<rparr>,
          \<lparr>mode = 0x12, address = 9, data = 0x69\<rparr>]"
    unfolding af columnTriplets_def ci
    by (simp add: czechComposition_def composedTriplet_def enumerate_eq_zip upt_rec)
  have h3: "(1::int) \<le> 19" and h4: "(19::int) \<le> 24" by simp_all
  from encodeRow_compose_triplets [OF h2 h3 h4 h5] h1
  have "enhancements (snd (encodeRow defaultX26 rowLod 19))
          = enhancements defaultX26
            @ \<lparr>mode = 0x04, address = 59, data = 0\<rparr>
              # columnTriplets defaultOpts 0 (Array_from rowLod)"
    by auto
  then show ?thesis using new_X26Encoder_default h2 h5 unfolding ct e by simp
qed

section \<open>Properties of the WST page encoder\<close>

lemma encodeHeaderPacket_erase:
  "encodeHeaderPacket ext mag pg 0 1 =
     [0x55, 0x55, 0x27, hammingEncodeNybble ext (mag AND 0x07), hammingEncodeNybble ext 0]
     @ map (hammingEncodeNybble ext) [pg AND 0xF, drop_bit 4 pg AND 0xF, 0, 8, 0, 8, 3, 0]
     @ replicate 32 0x20"
  by (simp add: encodeHeaderPacket_def encodePrefix_def Let_def)

text \<open>
  Claim C4. \<open>encodeSubtitle\<close> with a missing or an empty list of rows returns exactly one
  packet, the header packet: the 5-byte prefix of packet 0, the 8 Hamming-encoded page
  control nibbles, of which the fourth carries the erase bit C4 (value 8) and the sixth
  the subtitle bit C6, and 32 bytes \<open>0x20\<close>; 45 bytes in all.
\<close>

theorem encodeSubtitle_no_rows:
  "encodeSubtitle ext enc None sr = Inr [encodeHeaderPacket ext (magazine enc) (page enc) 0 1]
   \<and> encodeSubtitle ext enc (Some []) sr
       = Inr [encodeHeaderPacket ext (magazine enc) (page enc) 0 1]
   \<and> encodeHeaderPacket ext (magazine enc) (page enc) 0 1 =
       [0x55, 0x55, 0x27, hammingEncodeNybble ext (magazine enc AND 0x07),
        hammingEncodeNybble ext 0]
       @ map (hammingEncodeNybble ext)
           [page enc AND 0xF, drop_bit 4 (page enc) AND 0xF, 0, 8, 0, 8, 3, 0]
       @ replicate 32 0x20
   \<and> length (encodeHeaderPacket ext (magazine enc) (page enc) 0 1) = 45"
  by (simp add: encodeSubtitle_def encodeHeaderPacket_erase)

lemma boxedText_Inl: "40 < length text \<Longrightarrow> boxedText text = Inl RangeError"
  by (simp add: boxedText_def spaces_def)

lemma boxedText_Inr:
  "length text \<le> 40 \<Longrightarrow>
     boxedText text
       = Inr (take 40 ([0x0b, 0x0b] @ text @ [0x0a, 0x0a] @ replicate (40 - length text) 0x20))"
  by (simp add: boxedText_def spaces_def nat_diff_distrib')

lemma latin2Rows_Inr:
  "\<forall>text\<in>set rows. length text \<le> 40 \<Longrightarrow> \<exists>ps. latin2Rows ext enc row0 i rows = Inr ps"
proof (induction rows arbitrary: i)
  case Nil
  show ?case by simp
next
  case (Cons r rest)
  from Cons.prems have len: "length r \<le> 40" and "\<forall>text\<in>set rest. length text \<le> 40"
    by simp_all
  then obtain ps where "latin2Rows ext enc row0 (Suc i) rest = Inr ps"
    using Cons.IH by blast
  then show ?case
    by (simp add: latin2Row_def latin2TextBytes_def boxedText_Inr [OF len] Let_def)
qed

lemma latin2Rows_Inl:
  "\<exists>text\<in>set rows. 40 < length text \<Longrightarrow> latin2Rows ext enc row0 i rows = Inl RangeError"
proof (induction rows arbitrary: i)
  case Nil
  then show ?case by simp
next
  case (Cons r rest)
  show ?case
  proof (cases "length r \<le> 40")
    case True
    with Cons.prems have "\<exists>text\<in>set rest. 40 < length text" by auto
    then have "latin2Rows ext enc row0 (Suc i) rest = Inl RangeError" by (rule Cons.IH)
    then show ?thesis
      by (simp add: latin2Row_def latin2TextBytes_def boxedText_Inr [OF True] Let_def)
  next
    case False
    then show ?thesis
      by (simp add: latin2Row_def latin2TextBytes_def boxedText_Inl Let_def)
  qed
qed

lemma x26Rows_Inr:
  "\<forall>text\<in>set rows. length text \<le> 40 \<Longrightarrow> \<exists>ps. x26Rows ext enc row0 x26 i rows = Inr ps"
proof (induction rows arbitrary: i x26)
  case Nil
  show ?case by simp
next
  case (Cons r rest)
  from Cons.prems have len: "length r \<le> 40" and rest: "\<forall>text\<in>set rest. length text \<le> 40"
    by simp_all
  obtain packet x26' where row: "x26Row ext enc row0 x26 r i = Inr (packet, x26')"
    by (simp add: x26Row_def x26TextBytes_def boxedText_Inr [OF len] Let_def split_beta)
  obtain ps where "x26Rows ext enc row0 x26' (Suc i) rest = Inr ps"
    using Cons.IH [OF rest] by blast
  with row show ?case by (cases ps) simp
qed

lemma x26Rows_Inl:
  "\<exists>text\<in>set rows. 40 < length text \<Longrightarrow> x26Rows ext enc row0 x26 i rows = Inl RangeError"
proof (induction rows arbitrary: i x26)
  case Nil
  then show ?case by simp
next
  case (Cons r rest)
  show ?case
  proof (cases "length r \<le> 40")
    case True
    obtain packet x26' where row: "x26Row ext enc row0 x26 r i = Inr (packet, x26')"
      by (simp add: x26Row_def x26TextBytes_def boxedText_Inr [OF True] Let_def split_beta)
    from True Cons.prems have "\<exists>text\<in>set rest. 40 < length text" by auto
    then have "x26Rows ext enc row0 x26' (Suc i) rest = Inl RangeError" by (rule Cons.IH)
    with row show ?thesis by simp
  next
    case False
    then show ?thesis
      by (simp add: x26Row_def x26TextBytes_def boxedText_Inl Let_def)
  qed
qed

lemma encodeDisplayRows_Inr:
  assumes "\<forall>text\<in>set rows. length text \<le> 40"
    and "diacriticsEncoding enc = ''latin2'' \<or> \<not> inheritedVariant (x26Opts enc)"
  shows "\<exists>ps. encodeDisplayRows ext enc row0 rows = Inr ps"
proof (cases "diacriticsEncoding enc = ''latin2''")
  case True
  then show ?thesis using latin2Rows_Inr [OF assms(1)] by (simp add: encodeDisplayRows_def)
next
  case False
  with assms(2) obtain x26 where x: "new_X26Encoder (x26Opts enc) = Inr x26"
    by (simp add: new_X26Encoder_eq)
  obtain ps where "x26Rows ext enc row0 x26 0 rows = Inr ps"
    using x26Rows_Inr [OF assms(1)] by blast
  with False x show ?thesis by (cases ps) (simp add: encodeDisplayRows_def)
qed

lemma encodeDisplayRows_Inl:
  assumes "\<exists>text\<in>set rows. 40 < length text"
    and "diacriticsEncoding enc = ''latin2'' \<or> \<not> inheritedVariant (x26Opts enc)"
  shows "encodeDisplayRows ext enc row0 rows = Inl RangeError"
proof (cases "diacriticsEncoding enc = ''latin2''")
  case True
  then show ?thesis using latin2Rows_Inl [OF assms(1)] by (simp add: encodeDisplayRows_def)
next
  case False
  with assms(2) obtain x26 where x: "new_X26Encoder (x26Opts enc) = Inr x26"
    by (simp add: new_X26Encoder_eq)
  with False show ?thesis
    using x26Rows_Inl [OF assms(1)] by (simp add: encodeDisplayRows_def)
qed

lemma encodeDisplayRows_TypeError:
  assumes "diacriticsEncoding enc \<noteq> ''latin2''" and "inheritedVariant (x26Opts enc)"
  shows "encodeDisplayRows ext enc row0 rows = Inl TypeError"
  using assms by (simp add: encodeDisplayRows_def new_X26Encoder_eq)

lemma encodeSubtitle_Cons:
  "encodeSubtitle ext enc (Some (r # rs)) sr
     = (case encodeDisplayRows ext enc (case sr of Some r \<Rightarrow> r | None \<Rightarrow> startRow enc) (r # rs) of
          Inl e \<Rightarrow> Inl e
        | Inr rowPackets \<Rightarrow>
            Inr (encodeHeaderPacket ext (magazine enc) (page enc) 0 1 # rowPackets))"
  by (simp add: encodeSubtitle_def)

lemma encodeSubtitle_Inr:
  assumes "\<forall>text\<in>set rows. length text \<le> 40"
    and "diacriticsEncoding enc = ''latin2'' \<or> \<not> inheritedVariant (x26Opts enc)"
  shows "\<exists>ps. encodeSubtitle ext enc (Some rows) sr = Inr ps"
proof (cases rows)
  case Nil
  then show ?thesis by (simp add: encodeSubtitle_def)
next
  case (Cons r rs)
  obtain ps where
    "encodeDisplayRows ext enc (case sr of Some r \<Rightarrow> r | None \<Rightarrow> startRow enc) rows = Inr ps"
    using encodeDisplayRows_Inr [OF assms] by blast
  then show ?thesis unfolding Cons by (simp add: encodeSubtitle_Cons)
qed

lemma encodeSubtitle_Inl:
  assumes "\<exists>text\<in>set rows. 40 < length text"
    and "diacriticsEncoding enc = ''latin2'' \<or> \<not> inheritedVariant (x26Opts enc)"
  shows "encodeSubtitle ext enc (Some rows) sr = Inl RangeError"
proof (cases rows)
  case Nil
  with assms show ?thesis by simp
next
  case (Cons r rs)
  have "encodeDisplayRows ext enc (case sr of Some r \<Rightarrow> r | None \<Rightarrow> startRow enc) rows
          = Inl RangeError"
    using assms by (rule encodeDisplayRows_Inl)
  then show ?thesis unfolding Cons by (simp add: encodeSubtitle_Cons)
qed

lemma encodeSubtitle_TypeError:
  assumes "rows \<noteq> []"
    and "diacriticsEncoding enc \<noteq> ''latin2''" and "inheritedVariant (x26Opts enc)"
  shows "encodeSubtitle ext enc (Some rows) sr = Inl TypeError"
proof (cases rows)
  case Nil
  with assms show ?thesis by simp
next
  case (Cons r rs)
  show ?thesis
    unfolding Cons encodeSubtitle_Cons
    by (simp add: encodeDisplayRows_TypeError [OF assms(2,3)])
qed

lemma Array_from_no_lead: "\<forall>u\<in>set xs. \<not> is_lead u \<Longrightarrow> Array_from xs = xs"
  by (induction xs rule: Array_from.induct) simp_all

lemma length_Array_from: "length (Array_from xs) \<le> length xs"
  by (induction xs rule: Array_from.induct) auto

lemma documented_not_inherited: "documentedVariant opts \<Longrightarrow> \<not> inheritedVariant opts"
  by (auto simp: documentedVariant_def inheritedVariant_def Object_prototype_def
      split: option.splits)

text \<open>
  Claim C10, as amended. \<open>encodeSubtitle\<close> is not total. For an encoder in latin2 mode,
  or whose options are not \<open>g2\<close> mode with a variant named like an inherited property
  (so for every documented variant), it throws a RangeError, and returns no packet,
  exactly when some row has more than 40 UTF-16 code units, which is what \<open>text.length\<close>
  counts, and it returns packets exactly when every row has at most 40 code units. A row
  of more than 40 characters has more than 40 code units, so the call throws for it; a
  row without a surrogate pair has as many characters as code units. This holds in both
  diacritics modes and for any imported parity functions that return. For the other
  encoders the call throws a TypeError for every non-empty list of rows.
\<close>

theorem encodeSubtitle_not_total:
  "(diacriticsEncoding enc = ''latin2'' \<or> \<not> inheritedVariant (x26Opts enc) \<longrightarrow>
      (encodeSubtitle ext enc (Some rows) sr = Inl RangeError
         \<longleftrightarrow> (\<exists>text\<in>set rows. 40 < length text))
      \<and> ((\<exists>ps. encodeSubtitle ext enc (Some rows) sr = Inr ps)
           \<longleftrightarrow> (\<forall>text\<in>set rows. length text \<le> 40)))
   \<and> (documentedVariant (x26Opts enc) \<longrightarrow> \<not> inheritedVariant (x26Opts enc))
   \<and> ((\<exists>text\<in>set rows. 40 < length (Array_from text))
        \<longrightarrow> (\<exists>e. encodeSubtitle ext enc (Some rows) sr = Inl e))
   \<and> (\<forall>text. length (Array_from text) \<le> length text
         \<and> ((\<forall>u\<in>set text. \<not> is_lead u) \<longrightarrow> length (Array_from text) = length text))
   \<and> (encodeSubtitle ext enc (Some rows) sr = Inl TypeError
        \<longleftrightarrow> rows \<noteq> [] \<and> diacriticsEncoding enc \<noteq> ''latin2''
            \<and> inheritedVariant (x26Opts enc))"
proof -
  let ?good = "diacriticsEncoding enc = ''latin2'' \<or> \<not> inheritedVariant (x26Opts enc)"
  let ?r = "encodeSubtitle ext enc (Some rows) sr"
  have rng: "?r = Inl RangeError" if "\<exists>text\<in>set rows. 40 < length text" and ?good
    using that by (rule encodeSubtitle_Inl)
  have rtn: "\<exists>ps. ?r = Inr ps" if "\<forall>text\<in>set rows. length text \<le> 40" and ?good
    using that by (rule encodeSubtitle_Inr)
  have tye: "?r = Inl TypeError" if "rows \<noteq> []" and "\<not> ?good"
    using that by (intro encodeSubtitle_TypeError) simp_all
  have emp: "?r = Inr [encodeHeaderPacket ext (magazine enc) (page enc) 0 1]" if "rows = []"
    using that by (simp add: encodeSubtitle_def)
  have c1: "?good \<longrightarrow>
      (?r = Inl RangeError \<longleftrightarrow> (\<exists>text\<in>set rows. 40 < length text))
      \<and> ((\<exists>ps. ?r = Inr ps) \<longleftrightarrow> (\<forall>text\<in>set rows. length text \<le> 40))"
  proof (cases "\<forall>text\<in>set rows. length text \<le> 40")
    case True
    then have "\<not> (\<exists>text\<in>set rows. 40 < length text)" by auto
    with True rtn [OF True] show ?thesis by auto
  next
    case False
    then have ex: "\<exists>text\<in>set rows. 40 < length text" by (auto simp: not_le)
    with False rng [OF ex] show ?thesis by auto
  qed
  have c2: "documentedVariant (x26Opts enc) \<longrightarrow> \<not> inheritedVariant (x26Opts enc)"
    by (simp add: documented_not_inherited)
  have c3: "(\<exists>text\<in>set rows. 40 < length (Array_from text)) \<longrightarrow> (\<exists>e. ?r = Inl e)"
  proof
    assume "\<exists>text\<in>set rows. 40 < length (Array_from text)"
    then obtain row where t: "row \<in> set rows" "40 < length (Array_from row)" by blast
    then have "40 < length row" using length_Array_from [of row] by linarith
    with t(1) have ex: "\<exists>text\<in>set rows. 40 < length text" by blast
    from t(1) have ne: "rows \<noteq> []" by auto
    show "\<exists>e. ?r = Inl e"
    proof (cases ?good)
      case True
      with rng [OF ex] show ?thesis by blast
    next
      case False
      with tye [OF ne] show ?thesis by blast
    qed
  qed
  have c4: "\<forall>text. length (Array_from text) \<le> length text
         \<and> ((\<forall>u\<in>set text. \<not> is_lead u) \<longrightarrow> length (Array_from text) = length text)"
    by (simp add: length_Array_from Array_from_no_lead)
  have c5: "?r = Inl TypeError
        \<longleftrightarrow> rows \<noteq> [] \<and> diacriticsEncoding enc \<noteq> ''latin2'' \<and> inheritedVariant (x26Opts enc)"
  proof (cases "rows = []")
    case True
    with emp show ?thesis by simp
  next
    case False
    then have ne: "rows \<noteq> []" .
    show ?thesis
    proof (cases ?good)
      case False
      with tye [OF ne] ne show ?thesis by simp
    next
      case True
      have "?r \<noteq> Inl TypeError"
      proof (cases "\<forall>text\<in>set rows. length text \<le> 40")
        case True
        from rtn [OF True \<open>?good\<close>] show ?thesis by auto
      next
        case False
        then have "\<exists>text\<in>set rows. 40 < length text" by (auto simp: not_le)
        from rng [OF this \<open>?good\<close>] show ?thesis by simp
      qed
      with True show ?thesis by auto
    qed
  qed
  from c1 c2 c3 c4 c5 show ?thesis by blast
qed

theorem encodeSubtitle_not_total_witness:
  "\<not> inheritedVariant (x26Opts defaultEncoder)
   \<and> documentedVariant (x26Opts defaultEncoder)
   \<and> encodeSubtitle plainExternals defaultEncoder (Some [replicate 41 0x61]) None
       = Inl RangeError
   \<and> (\<exists>ps. encodeSubtitle plainExternals defaultEncoder (Some [replicate 40 0x61]) None
              = Inr ps)
   \<and> encodeSubtitle plainExternals latin2Encoder (Some [replicate 41 0x61]) None
       = Inl RangeError
   \<and> encodeSubtitle plainExternals constructorEncoder (Some [[0x61]]) None = Inl TypeError"
proof -
  have g: "\<not> inheritedVariant (x26Opts defaultEncoder)"
    by (simp add: defaultEncoder_def defaultOpts_constructed)
  have d: "documentedVariant (x26Opts defaultEncoder)"
    by (simp add: defaultEncoder_def defaultOpts_def documentedVariant_def)
  have l: "diacriticsEncoding latin2Encoder = ''latin2''"
    by (simp add: latin2Encoder_def)
  have c: "diacriticsEncoding constructorEncoder \<noteq> ''latin2''"
      "inheritedVariant (x26Opts constructorEncoder)"
    by (simp_all add: constructorEncoder_def defaultEncoder_def inheritedVariant_def
          Object_prototype_def)
  from encodeSubtitle_not_total [of defaultEncoder plainExternals "[replicate 41 0x61]" None]
       encodeSubtitle_not_total [of defaultEncoder plainExternals "[replicate 40 0x61]" None]
       encodeSubtitle_not_total [of latin2Encoder plainExternals "[replicate 41 0x61]" None]
       encodeSubtitle_not_total [of constructorEncoder plainExternals "[[0x61]]" None]
  show ?thesis using g d l c by simp
qed

text \<open>
  The claim as first stated fails for a row of 21 characters outside the Basic
  Multilingual Plane: it has 42 code units, and the call throws the RangeError though the
  row has fewer than 40 characters. It also fails for the encoder whose variant is
  \<open>constructor\<close>: the call throws for a row of one letter.
\<close>

theorem encodeSubtitle_not_total_counterexample:
  "length (Array_from astralRow) = 21
   \<and> encodeSubtitle plainExternals defaultEncoder (Some [astralRow]) None = Inl RangeError
   \<and> encodeSubtitle plainExternals latin2Encoder (Some [astralRow]) None = Inl RangeError
   \<and> encodeSubtitle plainExternals constructorEncoder (Some [[0x61]]) None = Inl TypeError"
proof -
  have af: "Array_from [0xD83D, 0xDE00] = [0x1F600]"
    by (simp add: is_lead_def is_trail_def pair_cp_def)
  have pairs: "Array_from (concat (replicate n [0xD83D, 0xDE00])) = replicate n 0x1F600" for n
    by (induction n) (simp_all add: is_lead_def is_trail_def pair_cp_def)
  have n: "length (Array_from astralRow) = 21"
    by (simp add: astralRow_def pairs)
  have "length (concat (replicate n [0xD83D, 0xDE00 :: nat])) = 2 * n" for n
    by (induction n) simp_all
  then have len: "\<exists>text\<in>set [astralRow]. 40 < length text"
    by (simp add: astralRow_def)
  have g: "diacriticsEncoding defaultEncoder = ''latin2''
             \<or> \<not> inheritedVariant (x26Opts defaultEncoder)"
    by (simp add: defaultEncoder_def defaultOpts_constructed)
  have l: "diacriticsEncoding latin2Encoder = ''latin2''
             \<or> \<not> inheritedVariant (x26Opts latin2Encoder)"
    by (simp add: latin2Encoder_def)
  have c: "diacriticsEncoding constructorEncoder \<noteq> ''latin2''"
      "inheritedVariant (x26Opts constructorEncoder)"
    by (simp_all add: constructorEncoder_def defaultEncoder_def inheritedVariant_def
          Object_prototype_def)
  have ne: "[[0x61 :: nat]] \<noteq> []" by simp
  show ?thesis
    using n encodeSubtitle_Inl [OF len g] encodeSubtitle_Inl [OF len l]
      encodeSubtitle_TypeError [OF ne c]
    by simp
qed

lemma seven_bit_not_lead: "u < 0x80 \<Longrightarrow> \<not> is_lead u"
  by (simp add: is_lead_def)

lemma concat_utf8_seven_bit:
  "\<forall>u\<in>set xs. u < 0x80 \<Longrightarrow> concat (map (utf8_cp \<circ> scalar_of) xs) = map of_nat xs"
  by (induction xs) (simp_all add: utf8_cp_def scalar_of_def is_lead_def is_trail_def)

lemma TextEncoder_encode_seven_bit:
  assumes "\<forall>u\<in>set xs. u < 0x80"
  shows "TextEncoder_encode xs = map of_nat xs"
proof -
  have af: "Array_from xs = xs"
    using assms by (intro Array_from_no_lead) (auto simp: is_lead_def)
  show ?thesis
    unfolding TextEncoder_encode_def af using assms by (rule concat_utf8_seven_bit)
qed

lemma toBaseLetter_eq: "toBaseLetter c = latin2Fold c"
proof -
  have "map_of CZECH_TO_BASE = map_of (map (\<lambda>(ch, bi). (ch, fst bi)) (czechComposition 15))"
    by (subst map_of_inject_set) (auto simp: CZECH_TO_BASE_def czechComposition_def)
  then have "map_of CZECH_TO_BASE c = map_option fst (map_of (czechComposition 15) c)"
    by (simp add: map_of_map)
  then show ?thesis
    by (auto simp: toBaseLetter_def latin2Fold_def split: option.splits)
qed

lemma latin2Fold_seven_bit: "latin2Fold c < 0x80"
  by (auto simp: latin2Fold_def czechComposition_def split: option.splits if_splits)

lemma take_framed:
  assumes "length A = 2" and "length B = 2" and "length row \<le> 40"
  shows "take 40 (A @ row @ B @ replicate (40 - length row) c)
           = A @ take 38 row @ take (38 - length row) B @ replicate (36 - length row) c"
  using assms by (simp add: min_def)

lemma take_frame:
  "length text \<le> 40 \<Longrightarrow>
     take 40 ([0x0b, 0x0b] @ text @ [0x0a, 0x0a] @ replicate (40 - length text) 0x20)
       = cutFrame text"
  unfolding cutFrame_def by (rule take_framed) simp_all


lemma boxedText_cutFrame:
  assumes len: "length text \<le> 40"
  shows "boxedText text = Inr (cutFrame text)"
proof -
  have "spaces (40 - int (length text)) = Inr (replicate (40 - length text) 0x20)"
    using len by (simp add: spaces_def nat_diff_distrib')
  then show ?thesis
    unfolding boxedText_def by (simp only: sum.case take_frame [OF len])
qed

lemma map_cutFrame:
  assumes "f 0x0B = 0x0B" and "f 0x0A = 0x0A" and "f 0x20 = 0x20"
  shows "map f (cutFrame row) = cutFrame (map f row)"
  using assms by (simp add: cutFrame_def take_map [symmetric])

lemma length_cutFrame: "length row \<le> 40 \<Longrightarrow> length (cutFrame row) = 40"
  by (auto simp: cutFrame_def min_def)

lemma cutFrame_short:
  "length row \<le> 36 \<Longrightarrow>
     cutFrame row = [0x0B, 0x0B] @ row @ [0x0A, 0x0A] @ replicate (36 - length row) 0x20"
  by (simp add: cutFrame_def)

lemma czechLetters_below: "u \<in> set czechLetters \<Longrightarrow> 0x80 \<le> u \<and> u < 0x180"
  by (auto simp: czechLetters_def czechComposition_def)

lemma cutFrame_no_lead:
  assumes "\<forall>u\<in>set row. u < 0x80 \<or> u \<in> set czechLetters"
  shows "\<forall>u\<in>set (cutFrame row). \<not> is_lead u"
proof
  fix u assume "u \<in> set (cutFrame row)"
  then have "u = 0x0B \<or> u = 0x0A \<or> u = 0x20 \<or> u \<in> set row"
    by (auto simp: cutFrame_def dest: in_set_takeD split: if_splits)
  with assms czechLetters_below show "\<not> is_lead u"
    by (fastforce simp: is_lead_def)
qed

lemma cutFrame_seven_bit:
  assumes "\<forall>u\<in>set row. u < 0x80"
  shows "\<forall>u\<in>set (cutFrame row). u < 0x80"
proof
  fix u assume "u \<in> set (cutFrame row)"
  then have "u = 0x0B \<or> u = 0x0A \<or> u = 0x20 \<or> u \<in> set row"
    by (auto simp: cutFrame_def dest: in_set_takeD split: if_splits)
  with assms show "u < 0x80" by auto
qed

lemma latin2Fold_frame: "latin2Fold 0x0B = 0x0B" "latin2Fold 0x0A = 0x0A" "latin2Fold 0x20 = 0x20"
  by (simp_all add: latin2Fold_def czechComposition_def)

lemma latin2TextBytes_eq:
  assumes len: "length text \<le> 40"
    and chars: "\<forall>u\<in>set text. u < 0x80 \<or> u \<in> set czechLetters"
  shows "latin2TextBytes text = Inr (map of_nat (cutFrame (map latin2Fold text)))"
proof -
  have af: "Array_from (cutFrame text) = cutFrame text"
    using cutFrame_no_lead [OF chars] by (rule Array_from_no_lead)
  have "toBaseLetters (cutFrame text) = map latin2Fold (cutFrame text)"
    by (simp add: toBaseLetters_def af toBaseLetter_eq [abs_def])
  also have "\<dots> = cutFrame (map latin2Fold text)"
    by (rule map_cutFrame) (rule latin2Fold_frame)+
  finally have tb: "toBaseLetters (cutFrame text) = cutFrame (map latin2Fold text)" .
  have "\<forall>u\<in>set (cutFrame (map latin2Fold text)). u < 0x80"
    by (rule cutFrame_seven_bit) (simp add: latin2Fold_seven_bit)
  then have "TextEncoder_encode (cutFrame (map latin2Fold text))
               = map of_nat (cutFrame (map latin2Fold text))"
    by (rule TextEncoder_encode_seven_bit)
  then show ?thesis
    by (simp add: latin2TextBytes_def boxedText_cutFrame [OF len] tb)
qed


lemma latin2TextBytes_fold:
  assumes len: "length text \<le> 40"
  shows "latin2TextBytes text
           = Inr (map (\<lambda>c. of_nat (latin2Fold c)) (Array_from (cutFrame text)))"
proof -
  have "\<forall>u\<in>set (toBaseLetters (cutFrame text)). u < 0x80"
    by (simp add: toBaseLetters_def toBaseLetter_eq latin2Fold_seven_bit)
  then have "TextEncoder_encode (toBaseLetters (cutFrame text))
               = map of_nat (toBaseLetters (cutFrame text))"
    by (rule TextEncoder_encode_seven_bit)
  then show ?thesis
    by (simp add: latin2TextBytes_def boxedText_cutFrame [OF len] toBaseLetters_def
          toBaseLetter_eq [abs_def] comp_def)
qed

lemma encodeRow_loop_row:
  "fst (encodeRow_loop cm rl col cs first enh) = map (rowCell cm) cs"
  by (induction cs arbitrary: col first enh)
     (simp_all add: rowCell_def split_beta Let_def split: option.splits)

lemma compositionMap_base: "list_all (\<lambda>(ch, e). base e < 0x80) (compositionMap opts)"
  by (simp add: compositionMap_def Let_def acuteRing_def caronRow_def CARON_LETTERS_def
        CARON_LETTERS_UC_def caronBase_def caronBaseUC_def)

lemma rowCell_not_letter:
  "u \<notin> set czechLetters \<Longrightarrow> rowCell (compositionMap opts) u = u"
proof -
  assume "u \<notin> set czechLetters"
  then have "u \<notin> fst ` set (compositionMap opts)"
    using compositionMap_keys [of opts] by (metis set_map)
  then have "map_of (compositionMap opts) u = None" by (simp add: map_of_eq_None_iff)
  then show ?thesis by (simp add: rowCell_def)
qed

lemma rowCell_seven_bit:
  assumes "u < 0x80 \<or> u \<in> set czechLetters"
  shows "rowCell (compositionMap opts) u < 0x80"
proof (cases "map_of (compositionMap opts) u")
  case None
  then have "u \<notin> fst ` set (compositionMap opts)" by (simp add: map_of_eq_None_iff)
  then have "u \<notin> set czechLetters" using compositionMap_keys [of opts] by (metis set_map)
  with assms None show ?thesis by (simp add: rowCell_def)
next
  case (Some e)
  then have "(u, e) \<in> set (compositionMap opts)" by (rule map_of_SomeD)
  with compositionMap_base [of opts] have "base e < 0x80" by (auto simp: list_all_iff)
  with Some show ?thesis by (simp add: rowCell_def)
qed

lemma rowCell_frame:
  "rowCell (compositionMap opts) 0x0B = 0x0B" "rowCell (compositionMap opts) 0x0A = 0x0A"
  "rowCell (compositionMap opts) 0x20 = 0x20"
  by (rule rowCell_not_letter, simp add: czechLetters_def czechComposition_def)+

lemma join_cps_bmp: "\<forall>c\<in>set cs. c < 0x10000 \<Longrightarrow> join_cps cs = cs"
  by (induction cs) (simp_all add: join_cps_def cp_string_def)

lemma x26TextBytes_eq:
  assumes len: "length text \<le> 40"
    and chars: "\<forall>u\<in>set text. u < 0x80 \<or> u \<in> set czechLetters"
    and cm: "czechMap x26 = compositionMap opts"
  shows "\<exists>x26'. x26TextBytes x26 rl text
           = Inr (map of_nat (cutFrame (map (rowCell (compositionMap opts)) text)), x26')"
proof -
  let ?cells = "cutFrame (map (rowCell (compositionMap opts)) text)"
  have af: "Array_from (cutFrame text) = cutFrame text"
    using cutFrame_no_lead [OF chars] by (rule Array_from_no_lead)
  have cells: "map (rowCell (compositionMap opts)) (cutFrame text) = ?cells"
    by (rule map_cutFrame) (rule rowCell_frame)+
  have seven: "\<forall>u\<in>set ?cells. u < 0x80"
    by (rule cutFrame_seven_bit) (use chars in \<open>simp add: rowCell_seven_bit\<close>)
  then have "\<forall>u\<in>set ?cells. u < 0x10000" by fastforce
  then have jn: "join_cps ?cells = ?cells" by (rule join_cps_bmp)
  have row: "fst (encodeRow x26 (cutFrame text) rl) = ?cells"
    by (simp add: encodeRow_def split_beta encodeRow_loop_row af cm cells jn)
  have "TextEncoder_encode ?cells = map of_nat ?cells"
    using seven by (rule TextEncoder_encode_seven_bit)
  with row show ?thesis
    by (simp add: x26TextBytes_def boxedText_cutFrame [OF len] split_beta)
qed


text \<open>
  Claim C3, as amended. For a row text of at most 40 code units, each a 7-bit character or
  a Czech table letter, the payload before parity is the 40 bytes of the cut frame of the
  folded text: \<open>0x0B 0x0B\<close>, the first 38 characters, what the cut leaves of
  \<open>0x0A 0x0A\<close>, and the padding. The folded text has the base letter (a space for a
  precomposed G2 letter) in place of each table letter and is the text itself when the text
  is 7-bit. Both markers and the whole text are there when the text has at most 36 code
  units.
\<close>

theorem display_row_payload:
  assumes "length text \<le> 40"
    and "\<forall>u\<in>set text. u < 0x80 \<or> u \<in> set czechLetters"
    and "buildCzechMap opts = Inr (czechMap x26)"
  shows "latin2TextBytes text = Inr (map of_nat (cutFrame (map latin2Fold text)))
    \<and> (\<exists>x26'. x26TextBytes x26 rowLocation text
                 = Inr (map of_nat (cutFrame (map (rowCell (czechMap x26)) text)), x26'))
    \<and> length (cutFrame (map latin2Fold text)) = 40
    \<and> length (cutFrame (map (rowCell (czechMap x26)) text)) = 40
    \<and> (\<forall>row. length row \<le> 36 \<longrightarrow>
          cutFrame row = [0x0B, 0x0B] @ row @ [0x0A, 0x0A] @ replicate (36 - length row) 0x20)
    \<and> (\<forall>u<0x80. latin2Fold u = u \<and> rowCell (czechMap x26) u = u)"
proof -
  from assms(3) have cm: "czechMap x26 = compositionMap opts" by (rule buildCzechMap_Inr)
  have "\<And>u. u < 0x80 \<Longrightarrow> latin2Fold u = u"
    by (auto simp: latin2Fold_def czechComposition_def split: option.splits if_splits)
  moreover have "\<And>u. u < 0x80 \<Longrightarrow> rowCell (compositionMap opts) u = u"
    using czechLetters_below by (intro rowCell_not_letter) fastforce
  ultimately show ?thesis
    using latin2TextBytes_eq [OF assms(1,2)] x26TextBytes_eq [OF assms(1,2) cm, of rowLocation]
      assms(1)
    by (simp add: cm length_cutFrame cutFrame_short)
qed

theorem display_row_payload_witness:
  "length [0x4C, 0x6F, 0x10F :: nat] \<le> 40
   \<and> buildCzechMap defaultOpts = Inr (czechMap defaultX26)
   \<and> latin2TextBytes [0x4C, 0x6F, 0x10F]
       = Inr ([0x0B, 0x0B, 0x4C, 0x6F, 0x64, 0x0A, 0x0A] @ replicate 33 0x20)"
proof -
  have h1: "length [0x4C, 0x6F, 0x10F :: nat] \<le> 40" by simp
  have h2: "\<forall>u\<in>set [0x4C, 0x6F, 0x10F :: nat]. u < 0x80 \<or> u \<in> set czechLetters"
    by (simp add: czechLetters_def czechComposition_def)
  have h3: "buildCzechMap defaultOpts = Inr (czechMap defaultX26)"
    by (rule buildCzechMap_default)
  from display_row_payload [OF h1 h2 h3]
  have "latin2TextBytes [0x4C, 0x6F, 0x10F]
          = Inr (map of_nat (cutFrame (map latin2Fold [0x4C, 0x6F, 0x10F])))"
    by blast
  then show ?thesis
    using h3 by (simp add: cutFrame_def latin2Fold_def czechComposition_def)
qed

text \<open>
  The claim as first stated fails for a text of 37 letters \<open>a\<close>: the payload ends with a
  single \<open>0x0A\<close>, in both modes, while the two markers around the text alone take 41
  bytes.
\<close>

theorem display_row_payload_counterexample:
  "new_X26Encoder defaultOpts = Inr defaultX26
   \<and> latin2TextBytes (replicate 37 0x61) = Inr ([0x0B, 0x0B] @ replicate 37 0x61 @ [0x0A])
   \<and> map_sum id fst (x26TextBytes defaultX26 19 (replicate 37 0x61))
       = Inr ([0x0B, 0x0B] @ replicate 37 0x61 @ [0x0A])
   \<and> latin2TextBytes (replicate 37 0x61)
       \<noteq> Inr ([0x0B, 0x0B] @ replicate 37 0x61 @ [0x0A, 0x0A])"
proof -
  have h1: "length (replicate 37 (0x61 :: nat)) \<le> 40" by simp
  have h2: "\<forall>u\<in>set (replicate 37 (0x61 :: nat)). u < 0x80 \<or> u \<in> set czechLetters" by simp
  have h3: "czechMap defaultX26 = compositionMap defaultOpts"
    by (simp add: defaultX26_def)
  have f1: "map latin2Fold (replicate 37 0x61) = replicate 37 0x61"
    by (simp add: latin2Fold_def czechComposition_def)
  have f2: "map (rowCell (compositionMap defaultOpts)) (replicate 37 0x61) = replicate 37 0x61"
    by (simp add: rowCell_not_letter czechLetters_def czechComposition_def)
  have cf: "cutFrame (replicate 37 0x61) = [0x0B, 0x0B] @ replicate 37 0x61 @ [0x0A]"
    by (simp add: cutFrame_def)
  have l: "latin2TextBytes (replicate 37 0x61)
             = Inr (map of_nat ([0x0B, 0x0B] @ replicate 37 0x61 @ [0x0A]))"
    using latin2TextBytes_eq [OF h1 h2] unfolding f1 cf .
  obtain x26' where x: "x26TextBytes defaultX26 19 (replicate 37 0x61)
             = Inr (map of_nat ([0x0B, 0x0B] @ replicate 37 0x61 @ [0x0A]), x26')"
    using x26TextBytes_eq [OF h1 h2 h3, of 19] unfolding f2 cf by blast
  show ?thesis unfolding l x using new_X26Encoder_default by simp
qed

text \<open>
  Claim C7, as amended. In latin2 mode every code point of the framed row is folded by
  \<open>latin2Fold\<close>: each of the thirty Czech letters of the table becomes its base ASCII
  letter, a 7-bit character is kept, and every other code point, other accented letters
  included, becomes \<open>?\<close>.
\<close>

theorem latin2_folds_czech_letters:
  assumes "length text \<le> 40"
  shows "latin2TextBytes text
           = Inr (map (\<lambda>c. of_nat (latin2Fold c)) (Array_from (cutFrame text)))
    \<and> toBaseLetters str = map latin2Fold (Array_from str)
    \<and> list_all (\<lambda>(ch, b, i). latin2Fold ch = b) (czechComposition 15)
    \<and> (\<forall>c<0x80. latin2Fold c = c)
    \<and> (\<forall>c. 0x80 \<le> c \<and> c \<notin> set czechLetters \<longrightarrow> latin2Fold c = 0x3F)"
proof -
  have "list_all (\<lambda>(ch, b, i). latin2Fold ch = b) (czechComposition 15)"
    by (simp add: latin2Fold_def czechComposition_def)
  moreover have "\<And>c. c < 0x80 \<Longrightarrow> latin2Fold c = c"
    by (auto simp: latin2Fold_def czechComposition_def split: option.splits if_splits)
  moreover have "\<And>c. 0x80 \<le> c \<Longrightarrow> c \<notin> set czechLetters \<Longrightarrow> latin2Fold c = 0x3F"
  proof -
    fix c :: nat assume "0x80 \<le> c" and "c \<notin> set czechLetters"
    then have "map_of (czechComposition 15) c = None"
      by (simp add: map_of_eq_None_iff czechLetters_def)
    with \<open>0x80 \<le> c\<close> show "latin2Fold c = 0x3F" by (simp add: latin2Fold_def)
  qed
  ultimately show ?thesis
    using latin2TextBytes_fold [OF assms]
    by (simp add: toBaseLetters_def toBaseLetter_eq [abs_def])
qed

theorem latin2_folds_czech_letters_witness:
  "length [0x10D, 0xF6, 0x41 :: nat] \<le> 40
   \<and> latin2TextBytes [0x10D, 0xF6, 0x41]
       = Inr ([0x0B, 0x0B, 0x63, 0x3F, 0x41, 0x0A, 0x0A] @ replicate 33 0x20)"
proof -
  have h: "length [0x10D, 0xF6, 0x41 :: nat] \<le> 40" by simp
  have cf: "cutFrame [0x10D, 0xF6, 0x41]
              = [0x0B, 0x0B, 0x10D, 0xF6, 0x41, 0x0A, 0x0A] @ replicate 33 0x20"
    by (simp add: cutFrame_def)
  have af: "Array_from ([0x0B, 0x0B, 0x10D, 0xF6, 0x41, 0x0A, 0x0A] @ replicate 33 0x20)
              = [0x0B, 0x0B, 0x10D, 0xF6, 0x41, 0x0A, 0x0A] @ replicate 33 0x20"
    by (rule Array_from_no_lead) (simp add: is_lead_def)
  have folds: "latin2Fold 0x10D = 0x63" "latin2Fold 0xF6 = 0x3F" "latin2Fold 0x41 = 0x41"
    by (simp_all add: latin2Fold_def czechComposition_def)
  from latin2_folds_czech_letters [OF h]
  have "latin2TextBytes [0x10D, 0xF6, 0x41]
          = Inr (map (\<lambda>c. of_nat (latin2Fold c)) (Array_from (cutFrame [0x10D, 0xF6, 0x41])))"
    by blast
  then show ?thesis
    unfolding cf af by (simp add: folds latin2Fold_frame)
qed

text \<open>
  The claim as first stated fails for the row \<open>o\<close> with diaeresis (U+00F6), a non-ASCII
  letter outside the Czech table whose base letter is \<open>o\<close> (\<open>0x6F\<close>): it is folded to
  \<open>?\<close> (\<open>0x3F\<close>).
\<close>

theorem latin2_folds_czech_letters_counterexample:
  "toBaseLetters [0xF6] = [0x3F]
   \<and> latin2TextBytes [0xF6] = Inr ([0x0B, 0x0B, 0x3F, 0x0A, 0x0A] @ replicate 35 0x20)
   \<and> latin2TextBytes [0xF6] \<noteq> Inr ([0x0B, 0x0B, 0x6F, 0x0A, 0x0A] @ replicate 35 0x20)"
proof -
  have h: "length [0xF6 :: nat] \<le> 40" by simp
  have t: "toBaseLetters [0xF6] = [0x3F]"
    by (simp add: toBaseLetters_def toBaseLetter_def CZECH_TO_BASE_def)
  have cf: "cutFrame [0xF6] = [0x0B, 0x0B, 0xF6, 0x0A, 0x0A] @ replicate 35 0x20"
    by (simp add: cutFrame_def)
  have af: "Array_from ([0x0B, 0x0B, 0xF6, 0x0A, 0x0A] @ replicate 35 0x20)
              = [0x0B, 0x0B, 0xF6, 0x0A, 0x0A] @ replicate 35 0x20"
    by (rule Array_from_no_lead) (simp add: is_lead_def)
  have folds: "latin2Fold 0xF6 = 0x3F"
    by (simp add: latin2Fold_def czechComposition_def)
  have "latin2TextBytes [0xF6]
          = Inr (map (\<lambda>c. of_nat (latin2Fold c)) (Array_from (cutFrame [0xF6])))"
    using h by (rule latin2TextBytes_fold)
  then have "latin2TextBytes [0xF6] = Inr ([0x0B, 0x0B, 0x3F, 0x0A, 0x0A] @ replicate 35 0x20)"
    unfolding cf af by (simp add: folds latin2Fold_frame)
  with t show ?thesis by simp
qed

section \<open>Properties of the segmenter\<close>

lemma lineChunks_Nil: "lineChunks [] = []"
  by (simp add: lineChunks_def MAX_LINES_def)

lemma lineChunks_single: "lineChunks [a] = [[take CHARS_PER_LINE a]]"
  by (simp add: lineChunks_def MAX_LINES_def)

lemma lineChunks_Cons2:
  "lineChunks (a # b # rest) = [take CHARS_PER_LINE a, take CHARS_PER_LINE b] # lineChunks rest"
proof -
  have "(length (a # b # rest) + 2 - 1) div 2 = Suc ((length rest + 2 - 1) div 2)" by simp
  then have "[0..<(length (a # b # rest) + 2 - 1) div 2]
               = 0 # map Suc [0..<(length rest + 2 - 1) div 2]"
    by (simp only: upt_conv_Cons map_Suc_upt zero_less_Suc)
  then show ?thesis
    by (simp add: lineChunks_def MAX_LINES_def comp_def del: upt_Suc)
qed

lemma concat_lineChunks:
  "\<forall>l\<in>set ls. length l \<le> CHARS_PER_LINE \<Longrightarrow> concat (lineChunks ls) = ls"
  by (induction ls rule: induct_list012)
     (simp_all add: lineChunks_Nil lineChunks_single lineChunks_Cons2)

lemma wrapLines_loop_fits:
  "length (if line \<noteq> [] then line @ [0x20] @ w else w) \<le> maxChars \<Longrightarrow>
     wrapLines_loop maxChars (w # ws) result line
       = wrapLines_loop maxChars ws result (if line \<noteq> [] then line @ [0x20] @ w else w)"
  by (simp only: wrapLines_loop.simps Let_def if_True)

lemma wrapLines_loop_breaks:
  "\<not> length (if line \<noteq> [] then line @ [0x20] @ w else w) \<le> maxChars \<Longrightarrow>
     wrapLines_loop maxChars (w # ws) result line
       = wrapLines_loop maxChars ws (if line \<noteq> [] then result @ [line] else result)
           (if length w \<le> maxChars then w else take maxChars w)"
  by (simp only: wrapLines_loop.simps Let_def if_False)

lemma wrapLines_loop_length:
  assumes "\<forall>l\<in>set result. length l \<le> maxChars" and "length line \<le> maxChars"
  shows "\<forall>l\<in>set (wrapLines_loop maxChars ws result line). length l \<le> maxChars"
  using assms
proof (induction ws arbitrary: result line)
  case Nil
  then show ?case by simp
next
  case (Cons w ws)
  let ?next = "if line \<noteq> [] then line @ [0x20] @ w else w"
  show ?case
  proof (cases "length ?next \<le> maxChars")
    case True
    have "\<forall>l\<in>set (wrapLines_loop maxChars ws result ?next). length l \<le> maxChars"
      using Cons.prems(1) True by (rule Cons.IH)
    then show ?thesis unfolding wrapLines_loop_fits [OF True] .
  next
    case False
    let ?result = "if line \<noteq> [] then result @ [line] else result"
    let ?line = "if length w \<le> maxChars then w else take maxChars w"
    have "\<forall>l\<in>set ?result. length l \<le> maxChars" using Cons.prems by simp
    moreover have "length ?line \<le> maxChars" by simp
    ultimately have "\<forall>l\<in>set (wrapLines_loop maxChars ws ?result ?line). length l \<le> maxChars"
      by (rule Cons.IH)
    then show ?thesis unfolding wrapLines_loop_breaks [OF False] .
  qed
qed

lemma wrapLines_length: "\<forall>l\<in>set (wrapLines s maxChars). length l \<le> maxChars"
  unfolding wrapLines_def by (rule wrapLines_loop_length) simp_all

lemma length_layoutSegments [simp]:
  "length (layoutSegments num d T e chunks) = length chunks"
  by (induction chunks arbitrary: e) (simp_all add: Let_def)

lemma layoutSegments_lines:
  "map seg_lines (layoutSegments num d T e chunks) = chunks"
  by (induction chunks arbitrary: e) (simp_all add: Let_def)

lemma layoutSegments_first:
  "chunks \<noteq> [] \<Longrightarrow> seg_start (layoutSegments num d T e chunks ! 0) = e"
  by (cases chunks) (simp_all add: Let_def)

lemma layoutSegments_end:
  "i < length chunks \<Longrightarrow>
     seg_end (layoutSegments num d T e chunks ! i)
       = seg_start (layoutSegments num d T e chunks ! i)
           + d * (num (length (concat (chunks ! i))) / num T)"
proof (induction chunks arbitrary: e i)
  case Nil
  then show ?case by simp
next
  case (Cons c cs)
  show ?case
  proof (cases i)
    case 0
    then show ?thesis by (simp add: Let_def)
  next
    case (Suc j)
    with Cons.prems have "j < length cs" by simp
    then show ?thesis using Suc by (simp add: Let_def Cons.IH)
  qed
qed

lemma layoutSegments_next:
  "Suc i < length chunks \<Longrightarrow>
     seg_start (layoutSegments num d T e chunks ! Suc i)
       = seg_end (layoutSegments num d T e chunks ! i)"
proof (induction chunks arbitrary: e i)
  case Nil
  then show ?case by simp
next
  case (Cons c cs)
  show ?case
  proof (cases i)
    case 0
    with Cons.prems have "cs \<noteq> []" by auto
    then show ?thesis using 0 by (simp add: Let_def layoutSegments_first)
  next
    case (Suc j)
    with Cons.prems have "Suc j < length cs" by simp
    then show ?thesis using Suc by (simp add: Let_def Cons.IH)
  qed
qed

lemma cueToSegments_cases:
  fixes num :: "nat \<Rightarrow> 'a :: {plus, minus, times, inverse}" and cue :: "'a cue"
  defines "chunks \<equiv> lineChunks (wrapLines (cue_text cue) CHARS_PER_LINE)"
  defines "laid \<equiv> layoutSegments num (cue_end cue - cue_start cue)
                      (length (concat (wrapLines (cue_text cue) CHARS_PER_LINE)))
                      (cue_start cue) chunks"
  shows "length (cueToSegments num cue) = length chunks"
    and "map seg_lines (cueToSegments num cue) = chunks"
    and "length chunks = 1 \<Longrightarrow>
           cueToSegments num cue
             = [\<lparr>seg_lines = hd chunks, seg_start = cue_start cue, seg_end = cue_end cue\<rparr>]"
    and "2 \<le> length chunks \<Longrightarrow>
           cueToSegments num cue
             = laid[length chunks - 1 := (laid ! (length chunks - 1))\<lparr>seg_end := cue_end cue\<rparr>]"
proof -
  show c1: "length chunks = 1 \<Longrightarrow>
           cueToSegments num cue
             = [\<lparr>seg_lines = hd chunks, seg_start = cue_start cue, seg_end = cue_end cue\<rparr>]"
    by (auto simp: cueToSegments_def Let_def chunks_def)
  show c2: "2 \<le> length chunks \<Longrightarrow>
           cueToSegments num cue
             = laid[length chunks - 1 := (laid ! (length chunks - 1))\<lparr>seg_end := cue_end cue\<rparr>]"
    by (auto simp: cueToSegments_def Let_def chunks_def laid_def)
  have c0: "length chunks = 0 \<Longrightarrow> cueToSegments num cue = []"
    by (simp add: cueToSegments_def Let_def chunks_def)
  consider "length chunks = 0" | "length chunks = 1" | "2 \<le> length chunks" by linarith
  then show "length (cueToSegments num cue) = length chunks"
    by cases (simp_all add: c0 c1 c2 laid_def)
  consider "length chunks = 0" | "length chunks = 1" | "2 \<le> length chunks" by linarith
  then show "map seg_lines (cueToSegments num cue) = chunks"
  proof cases
    case 1
    then show ?thesis by (simp add: c0)
  next
    case 2
    then show ?thesis by (cases chunks) (simp_all add: c1)
  next
    case 3
    have "map seg_lines (laid[length chunks - 1 := (laid ! (length chunks - 1))\<lparr>seg_end := cue_end cue\<rparr>])
            = (map seg_lines laid)[length chunks - 1 := seg_lines (laid ! (length chunks - 1))]"
      by (simp add: map_update)
    also have "\<dots> = map seg_lines laid"
      using 3 by (simp add: laid_def list_update_same_conv)
    finally show ?thesis using 3 by (simp add: c2 laid_def layoutSegments_lines)
  qed
qed

text \<open>
  Claim C5. The segments of a cue carry its wrapped lines in order. A cue with one segment
  gives it its own start and end. With two or more segments the first starts at the cue's
  start, every segment but the last ends at its start plus
  \<open>duration * (segChars / totalChars)\<close>, its share of the cue's duration by character
  count, the next segment starts where it ends, and the end of the last segment is the
  cue's end itself. The arithmetic is that of the number type, whatever its rounding.
\<close>

theorem cueToSegments_timing:
  fixes num :: "nat \<Rightarrow> 'a :: {plus, minus, times, inverse}"
  shows
  "(let segs = cueToSegments num cue;
        n = length segs;
        allLines = wrapLines (cue_text cue) CHARS_PER_LINE;
        duration = cue_end cue - cue_start cue;
        share = (\<lambda>i. num (length (concat (seg_lines (segs ! i)))) / num (length (concat allLines)))
    in concat (map seg_lines segs) = allLines
     \<and> (n = 1 \<longrightarrow> seg_start (segs ! 0) = cue_start cue \<and> seg_end (segs ! 0) = cue_end cue)
     \<and> (2 \<le> n \<longrightarrow>
          seg_start (segs ! 0) = cue_start cue
        \<and> (\<forall>i. Suc i < n \<longrightarrow>
              seg_end (segs ! i) = seg_start (segs ! i) + duration * share i
            \<and> seg_start (segs ! Suc i) = seg_end (segs ! i))
        \<and> seg_end (segs ! (n - 1)) = cue_end cue))"
proof -
  define chunks where "chunks = lineChunks (wrapLines (cue_text cue) CHARS_PER_LINE)"
  define T where "T = length (concat (wrapLines (cue_text cue) CHARS_PER_LINE))"
  define laid where "laid = layoutSegments num (cue_end cue - cue_start cue) T (cue_start cue) chunks"
  define segs where "segs = cueToSegments num cue"
  note cs = cueToSegments_cases [where num = num and cue = cue, folded chunks_def T_def, folded laid_def segs_def]
  have len: "length segs = length chunks" by (rule cs(1))
  have lines: "map seg_lines segs = chunks" by (rule cs(2))
  have all: "concat (map seg_lines segs) = wrapLines (cue_text cue) CHARS_PER_LINE"
    unfolding lines chunks_def by (rule concat_lineChunks) (rule wrapLines_length)
  have one: "seg_start (segs ! 0) = cue_start cue \<and> seg_end (segs ! 0) = cue_end cue"
    if "length segs = 1"
    using that cs(3) by (simp add: len)
  have many: "seg_start (segs ! 0) = cue_start cue
        \<and> (\<forall>i. Suc i < length segs \<longrightarrow>
              seg_end (segs ! i) = seg_start (segs ! i)
                 + (cue_end cue - cue_start cue) * (num (length (concat (seg_lines (segs ! i)))) / num T)
            \<and> seg_start (segs ! Suc i) = seg_end (segs ! i))
        \<and> seg_end (segs ! (length segs - 1)) = cue_end cue"
    if n: "2 \<le> length segs"
  proof -
    from n have n': "2 \<le> length chunks" by (simp add: len)
    have eq: "segs = laid[length chunks - 1 := (laid ! (length chunks - 1))\<lparr>seg_end := cue_end cue\<rparr>]"
      using cs(4) [OF n'] .
    have ll: "length laid = length chunks" by (simp add: laid_def)
    have first: "seg_start (segs ! 0) = cue_start cue"
    proof -
      have "chunks \<noteq> []" using n' by auto
      then have "seg_start (laid ! 0) = cue_start cue"
        unfolding laid_def by (rule layoutSegments_first)
      then show ?thesis using n' by (simp add: eq ll nth_list_update)
    qed
    have last: "seg_end (segs ! (length segs - 1)) = cue_end cue"
      using n' by (simp add: len eq ll)
    have step: "seg_end (segs ! i) = seg_start (segs ! i)
                 + (cue_end cue - cue_start cue) * (num (length (concat (seg_lines (segs ! i)))) / num T)
            \<and> seg_start (segs ! Suc i) = seg_end (segs ! i)"
      if i: "Suc i < length segs" for i
    proof -
      from i have i': "Suc i < length chunks" by (simp add: len)
      then have ne: "i \<noteq> length chunks - 1" by simp
      have si: "segs ! i = laid ! i" using ne by (simp add: eq)
      have li: "seg_lines (segs ! i) = chunks ! i"
        using lines i' by (metis Suc_lessD len nth_map)
      have e: "seg_end (laid ! i) = seg_start (laid ! i)
                 + (cue_end cue - cue_start cue) * (num (length (concat (chunks ! i))) / num T)"
        unfolding laid_def using i' by (intro layoutSegments_end) simp
      have nx: "seg_start (laid ! Suc i) = seg_end (laid ! i)"
        unfolding laid_def using i' by (rule layoutSegments_next)
      have "seg_start (segs ! Suc i) = seg_start (laid ! Suc i)"
        using i' by (simp add: eq ll nth_list_update)
      with e nx li show ?thesis by (simp add: si)
    qed
    from first step last show ?thesis by blast
  qed
  show ?thesis
    unfolding Let_def segs_def [symmetric] T_def [symmetric]
    using all one many by blast
qed

lemma split_spaces_word:
  "\<forall>c\<in>set w. \<not> is_space c \<Longrightarrow>
     split_spaces cur gap (w @ rest) = split_spaces (cur @ w) (if w = [] then gap else False) rest"
  by (induction w arbitrary: cur gap) simp_all

lemma words_three:
  assumes "\<forall>c\<in>set a. \<not> is_space c" "\<forall>c\<in>set b. \<not> is_space c" "\<forall>c\<in>set c. \<not> is_space c"
    and "a \<noteq> []" "b \<noteq> []" "c \<noteq> []"
  shows "words (a @ [0x20] @ b @ [0x20] @ c) = [a, b, c]"
proof -
  have sp: "is_space 0x20" by (simp add: is_space_def)
  have "split_spaces [] False (a @ ([0x20] @ b @ [0x20] @ c))
          = split_spaces a False ([0x20] @ b @ [0x20] @ c)"
    using assms(1,4) by (simp add: split_spaces_word)
  also have "\<dots> = a # split_spaces [] True (b @ ([0x20] @ c))"
    using sp by simp
  also have "split_spaces [] True (b @ ([0x20] @ c)) = split_spaces b False ([0x20] @ c)"
    using assms(2,5) by (simp add: split_spaces_word)
  also have "\<dots> = b # split_spaces [] True (c @ [])"
    using sp by simp
  also have "split_spaces [] True (c @ []) = split_spaces c False []"
    using assms(3,6) by (simp only: split_spaces_word append_Nil if_False)
  finally show ?thesis using assms(4-6) by (simp add: words_def)
qed

lemma wrapLines_threeWords:
  "wrapLines threeWords CHARS_PER_LINE = [replicate 19 0x61, replicate 19 0x62, replicate 19 0x63]"
proof -
  have "words threeWords = [replicate 19 0x61, replicate 19 0x62, replicate 19 0x63]"
    unfolding threeWords_def by (rule words_three) (simp_all add: is_space_def)
  then show ?thesis
    by (simp add: wrapLines_def CHARS_PER_LINE_def)
qed

lemma wrapLines_Hi: "wrapLines [0x48, 0x69] CHARS_PER_LINE = [[0x48, 0x69]]"
  by (simp add: wrapLines_def words_def is_space_def CHARS_PER_LINE_def)

theorem cueToSegments_timing_witness:
  "cueToSegments real cue3
     = [\<lparr>seg_lines = [replicate 19 0x61, replicate 19 0x62], seg_start = 0, seg_end = 2\<rparr>,
        \<lparr>seg_lines = [replicate 19 0x63], seg_start = 2, seg_end = 3\<rparr>]
   \<and> cueToSegments real cue1 = [\<lparr>seg_lines = [[0x48, 0x69]], seg_start = 1, seg_end = 3\<rparr>]"
proof -
  have wl: "wrapLines (cue_text cue3) CHARS_PER_LINE
              = [replicate 19 0x61, replicate 19 0x62, replicate 19 0x63]"
    by (simp add: cue3_def wrapLines_threeWords)
  have lines3: "map seg_lines (cueToSegments real cue3)
                  = [[replicate 19 0x61, replicate 19 0x62], [replicate 19 0x63]]"
    unfolding cueToSegments_cases(2) wl
    by (simp add: lineChunks_Cons2 lineChunks_single CHARS_PER_LINE_def)
  have lines1: "map seg_lines (cueToSegments real cue1) = [[[0x48, 0x69]]]"
    unfolding cueToSegments_cases(2) cue1_def cue.select_convs wrapLines_Hi lineChunks_single
    by (simp add: CHARS_PER_LINE_def)
  obtain s0 s1 where segs3: "cueToSegments real cue3 = [s0, s1]"
    and s0: "seg_lines s0 = [replicate 19 0x61, replicate 19 0x62]"
    and s1: "seg_lines s1 = [replicate 19 0x63]"
    using lines3 by (auto simp: map_eq_Cons_conv)
  obtain s where segs1: "cueToSegments real cue1 = [s]" and s: "seg_lines s = [[0x48, 0x69]]"
    using lines1 by (auto simp: map_eq_Cons_conv)
  from cueToSegments_timing [of real cue3]
  have "seg_start s0 = 0 \<and> seg_end s0 = 2 \<and> seg_start s1 = 2 \<and> seg_end s1 = 3"
    unfolding segs3 Let_def wl by (simp add: s0 cue3_def)
  moreover from cueToSegments_timing [of real cue1]
  have "seg_start s = 1 \<and> seg_end s = 3"
    unfolding segs1 Let_def by (simp add: cue1_def)
  ultimately show ?thesis
    unfolding segs3 segs1 using s0 s1 s by (simp add: segment.equality)
qed

lemma layoutSegments_start_real:
  "i < length chunks \<Longrightarrow>
     seg_start (layoutSegments real d T e chunks ! i)
       = e + d * (real (length (concat (concat (take i chunks)))) / real T)"
proof (induction chunks arbitrary: e i)
  case Nil
  then show ?case by simp
next
  case (Cons c cs)
  show ?case
  proof (cases i)
    case 0
    then show ?thesis by (simp add: Let_def)
  next
    case (Suc j)
    with Cons.prems have "j < length cs" by simp
    then show ?thesis
      using Suc by (simp add: Let_def Cons.IH algebra_simps add_divide_distrib)
  qed
qed

lemma wrapLines_loop_nonempty:
  "\<forall>l\<in>set result. l \<noteq> [] \<Longrightarrow> \<forall>l\<in>set (wrapLines_loop maxChars ws result line). l \<noteq> []"
proof (induction ws arbitrary: result line)
  case Nil
  then show ?case by simp
next
  case (Cons w ws)
  let ?next = "if line \<noteq> [] then line @ [0x20] @ w else w"
  show ?case
  proof (cases "length ?next \<le> maxChars")
    case True
    show ?thesis
      unfolding wrapLines_loop_fits [OF True] using Cons.prems by (rule Cons.IH)
  next
    case False
    have "\<forall>l\<in>set (if line \<noteq> [] then result @ [line] else result). l \<noteq> []"
      using Cons.prems by simp
    then show ?thesis
      unfolding wrapLines_loop_breaks [OF False] by (rule Cons.IH)
  qed
qed

lemma wrapLines_nonempty: "\<forall>l\<in>set (wrapLines s maxChars). l \<noteq> []"
  unfolding wrapLines_def by (rule wrapLines_loop_nonempty) simp

text \<open>
  In exact arithmetic the share holds for the last segment too: over the reals the
  duration of every segment of a cue with two or more segments is the cue's duration
  times the segment's part of the characters.
\<close>

lemma cueToSegments_exact_shares:
  fixes cue :: "real cue"
  defines "segs \<equiv> cueToSegments real cue"
  defines "T \<equiv> length (concat (wrapLines (cue_text cue) CHARS_PER_LINE))"
  assumes n: "2 \<le> length segs" and i: "i < length segs"
  shows "seg_end (segs ! i) - seg_start (segs ! i)
           = (cue_end cue - cue_start cue) * (real (length (concat (seg_lines (segs ! i)))) / real T)"
proof -
  define allLines where "allLines = wrapLines (cue_text cue) CHARS_PER_LINE"
  define chunks where "chunks = lineChunks allLines"
  define d where "d = cue_end cue - cue_start cue"
  define laid where "laid = layoutSegments real d T (cue_start cue) chunks"
  note cs = cueToSegments_cases [where num = real and cue = cue,
      folded allLines_def, folded T_def [unfolded allLines_def [symmetric]] chunks_def d_def,
      folded laid_def segs_def]
  have len: "length segs = length chunks" by (rule cs(1))
  have lines: "map seg_lines segs = chunks" by (rule cs(2))
  from n have n': "2 \<le> length chunks" by (simp add: len)
  have eq: "segs = laid[length chunks - 1 := (laid ! (length chunks - 1))\<lparr>seg_end := cue_end cue\<rparr>]"
    using cs(4) [OF n'] .
  have ll: "length laid = length chunks" by (simp add: laid_def)
  have li: "seg_lines (segs ! i) = chunks ! i"
    using lines i by (metis nth_map)
  have cat: "concat chunks = allLines"
    unfolding chunks_def allLines_def by (rule concat_lineChunks) (rule wrapLines_length)
  show ?thesis
  proof (cases "Suc i < length segs")
    case True
    then have "i \<noteq> length chunks - 1" "i < length chunks" by (simp_all add: len)
    then have "segs ! i = laid ! i" by (simp add: eq)
    moreover have "seg_end (laid ! i) = seg_start (laid ! i)
                 + d * (real (length (concat (chunks ! i))) / real T)"
      unfolding laid_def using \<open>i < length chunks\<close> by (rule layoutSegments_end)
    ultimately show ?thesis using li by (simp add: d_def)
  next
    case False
    with i have last: "i = length chunks - 1" by (simp add: len)
    have ic: "i < length chunks" using i by (simp add: len)
    have st: "seg_start (segs ! i) = seg_start (laid ! i)"
      using ic by (simp add: eq last ll)
    have en: "seg_end (segs ! i) = cue_end cue"
      using ic by (simp add: eq last ll)
    have start: "seg_start (laid ! i)
               = cue_start cue + d * (real (length (concat (concat (take i chunks)))) / real T)"
      unfolding laid_def using ic by (rule layoutSegments_start_real)
    have "Suc i = length chunks" using last n' by simp
    then have "take i chunks @ [chunks ! i] = chunks"
      using ic by (simp add: take_Suc_conv_app_nth [symmetric])
    then have "concat (concat (take i chunks)) @ concat (chunks ! i) = concat allLines"
      by (metis cat concat_append concat.simps append_Nil2)
    then have sum: "length (concat (concat (take i chunks))) + length (concat (chunks ! i)) = T"
      unfolding T_def allLines_def [symmetric] by (metis length_append)
    have "chunks \<noteq> []" using n' by auto
    then have "allLines \<noteq> []" by (auto simp: chunks_def lineChunks_Nil)
    moreover have "\<forall>l\<in>set allLines. l \<noteq> []"
      unfolding allLines_def by (rule wrapLines_nonempty)
    ultimately have "concat allLines \<noteq> []" by (cases allLines) auto
    then have T: "0 < T" by (simp add: T_def allLines_def)
    have c: "real (length (concat (chunks ! i)))
            = real T - real (length (concat (concat (take i chunks))))"
      using sum by linarith
    have "d * (real (length (concat (chunks ! i))) / real T)
                 = d - d * (real (length (concat (concat (take i chunks)))) / real T)"
      unfolding c using T by (simp add: diff_divide_distrib right_diff_distrib)
    then show ?thesis
      unfolding st en start li by (simp add: d_def)
  qed
qed

section \<open>Properties of the scheduler\<close>

lemma findCurrentIndex_none:
  "\<forall>s\<in>set segs. \<not> (seg_start s \<le> t \<and> t < seg_end s) \<Longrightarrow> findCurrentIndex t segs i = -1"
  by (induction segs arbitrary: i) simp_all

text \<open>
  Claim C6. In a tick whose time \<open>t\<close> lies inside no segment, the title is cleared and
  \<open>lastShownSegmentIndex\<close> reset to \<open>-1\<close> exactly when \<open>lastShownSegmentIndex\<close> is at
  least 0 and the gap to the start of the next segment (infinite when there is none)
  exceeds two seconds; otherwise nothing is dispatched and the state is unchanged, so the
  title stays. When the time source returns null, nothing is dispatched either.
\<close>

theorem tick_outside_segments:
  fixes num :: "nat \<Rightarrow> 'a :: {plus, minus, inverse, ord}"
  assumes "\<forall>s\<in>set (segments st). \<not> (seg_start s \<le> t \<and> t < seg_end s)"
  shows "tick num st (Some t)
           = (if 0 \<le> lastShownSegmentIndex st \<and> gapExceeds num t (segments st)
              then ([ClearTitle], st\<lparr>lastShownSegmentIndex := -1\<rparr>)
              else ([], st))
       \<and> tick num st None = ([], st)
       \<and> (timeMode st \<noteq> ''autonomous'' \<longrightarrow>
            tick num st (getCurrentTime num st now None) = ([], st))"
proof (cases "segments st = []")
  case True
  then show ?thesis by (simp add: tick_def gapExceeds_def getCurrentTime_def)
next
  case False
  have "findCurrentIndex t (segments st) 0 = -1"
    using assms by (rule findCurrentIndex_none)
  with False show ?thesis
    by (simp add: tick_def gapExceeds_def GAP_BEFORE_CLEAR_S_def Let_def getCurrentTime_def
          split: option.splits)
qed

theorem tick_outside_segments_witness:
  "tick real twoCues (Some (11 / 10)) = ([], twoCues)
   \<and> tick real (twoCues\<lparr>lastShownSegmentIndex := 1\<rparr>) (Some (51 / 20))
       = ([ClearTitle], twoCues\<lparr>lastShownSegmentIndex := -1\<rparr>)
   \<and> tick real (twoCues\<lparr>lastShownSegmentIndex := -1\<rparr>) (Some (51 / 20))
       = ([], twoCues\<lparr>lastShownSegmentIndex := -1\<rparr>)
   \<and> tick real (twoCues\<lparr>timeMode := ''osc''\<rparr>)
         (getCurrentTime real (twoCues\<lparr>timeMode := ''osc''\<rparr>) 1000 None)
       = ([], twoCues\<lparr>timeMode := ''osc''\<rparr>)"
proof -
  have h1: "\<forall>s\<in>set (segments twoCues). \<not> (seg_start s \<le> 11 / 10 \<and> 11 / 10 < seg_end s)"
    by (simp add: twoCues_def)
  have h2: "\<forall>s\<in>set (segments (twoCues\<lparr>lastShownSegmentIndex := i\<rparr>)).
              \<not> (seg_start s \<le> 51 / 20 \<and> 51 / 20 < seg_end s)" for i
    by (simp add: twoCues_def)
  have h3: "\<forall>s\<in>set (segments (twoCues\<lparr>timeMode := ''osc''\<rparr>)).
              \<not> (seg_start s \<le> 51 / 20 \<and> 51 / 20 < seg_end s)"
    by (simp add: twoCues_def)
  have osc: "timeMode (twoCues\<lparr>timeMode := ''osc''\<rparr>) \<noteq> ''autonomous''" by simp
  from tick_outside_segments [OF h1, where num = real]
       tick_outside_segments [OF h2 [of 1], where num = real]
       tick_outside_segments [OF h2 [of "-1"], where num = real]
       tick_outside_segments [OF h3, where num = real and now = 1000] osc
  show ?thesis
    by (simp add: gapExceeds_def twoCues_def)
qed

section \<open>Properties of the VTT parser\<close>

lemma trim_trim: "trim (trim s) = trim s"
proof -
  define a where "a = dropWhile is_space s"
  define b where "b = rev (dropWhile is_space (rev a))"
  have b: "trim s = b" by (simp add: trim_def a_def b_def)
  have split: "a = b @ rev (takeWhile is_space (rev a))"
    unfolding b_def by (metis rev_append rev_rev_ident takeWhile_dropWhile_id)
  show ?thesis
  proof (cases "b = []")
    case True
    then show ?thesis unfolding b by (simp add: trim_def)
  next
    case False
    then have "a \<noteq> []" using split by auto
    then have "\<not> is_space (hd a)" unfolding a_def by (rule hd_dropWhile)
    moreover have "hd a = hd b" using split False by (metis hd_append2)
    ultimately have d1: "dropWhile is_space b = b" by (simp add: dropWhile_eq_self_iff)
    have "rev b = dropWhile is_space (rev a)" by (simp add: b_def)
    moreover from False have "dropWhile is_space (rev a) \<noteq> []" by (simp add: b_def)
    ultimately have "\<not> is_space (hd (rev b))" by (metis hd_dropWhile)
    then have d2: "dropWhile is_space (rev b) = rev b" by (simp add: dropWhile_eq_self_iff)
    show ?thesis unfolding b by (simp add: trim_def d1 d2)
  qed
qed

lemma parseCues_cue:
  fixes num :: "nat \<Rightarrow> 'a :: {plus, inverse}"
  assumes "c \<in> set (parseCues num ls)"
  shows "trim (cue_text c) \<noteq> []
       \<and> (\<exists>line\<in>set ls. \<exists>a b. timeRegex line = Some (a, b)
             \<and> cue_start c = toSeconds num a \<and> cue_end c = toSeconds num b)"
  using assms
proof (induction num ls rule: parseCues.induct)
  case (1 num)
  then show ?case by simp
next
  case (2 num timeLine rest)
  show ?case
  proof (cases "timeRegex timeLine")
    case None
    with "2.prems" have "c \<in> set (parseCues num rest)" by simp
    with "2.IH"(1) [OF None] show ?thesis by auto
  next
    case (Some ab)
    obtain a b where ab: "ab = (a, b)" by (cases ab)
    define after where "after = dropWhile (\<lambda>l. trim l \<noteq> []) rest"
    define tx where "tx = trim (collapse_spaces False
                       (join_space (map trim (takeWhile (\<lambda>l. trim l \<noteq> []) rest))))"
    from "2.prems" Some ab
    consider "tx \<noteq> []" and
        "c = \<lparr>cue_start = toSeconds num a, cue_end = toSeconds num b, cue_text = tx\<rparr>"
      | "c \<in> set (parseCues num (drop 1 after))"
      by (auto simp: Let_def tx_def after_def split: if_splits)
    then show ?thesis
    proof cases
      case 1
      have "trim tx = tx" unfolding tx_def by (rule trim_trim)
      with 1 have t: "trim (cue_text c) \<noteq> []" by simp
      have "timeRegex timeLine = Some (a, b)
              \<and> cue_start c = toSeconds num a \<and> cue_end c = toSeconds num b"
        using 1 Some ab by simp
      then have "\<exists>line\<in>set (timeLine # rest). \<exists>a b. timeRegex line = Some (a, b)
             \<and> cue_start c = toSeconds num a \<and> cue_end c = toSeconds num b"
        by (intro bexI [of _ timeLine] exI [of _ a] exI [of _ b]) simp_all
      with t show ?thesis by blast
    next
      case 2
      have "trim (cue_text c) \<noteq> []
          \<and> (\<exists>line\<in>set (drop 1 after). \<exists>a b. timeRegex line = Some (a, b)
             \<and> cue_start c = toSeconds num a \<and> cue_end c = toSeconds num b)"
        using "2.IH"(2) [OF Some ab [symmetric] refl refl refl refl refl] 2
        by (simp add: after_def)
      moreover have "set (drop 1 after) \<subseteq> set rest"
        unfolding after_def by (meson set_drop_subset set_dropWhileD subsetI subset_trans)
      ultimately show ?thesis by (simp only: set_simps) blast
    qed
  qed
qed

text \<open>
  Claim C9, as amended. Every cue that \<open>parseVTT\<close> returns has a text that is not empty
  after trimming, and its start and end are the seconds of the first and the second time
  stamp of one time line of the input, in that order: the parser compares them nowhere.
\<close>

theorem parseVTT_cues:
  fixes num :: "nat \<Rightarrow> 'a :: {plus, inverse}"
  shows "\<forall>c\<in>set (parseVTT num vttContent).
           trim (cue_text c) \<noteq> []
         \<and> (\<exists>line\<in>set (split_lines [] vttContent). \<exists>a b. timeRegex line = Some (a, b)
               \<and> cue_start c = toSeconds num a \<and> cue_end c = toSeconds num b)"
proof
  fix c assume "c \<in> set (parseVTT num vttContent)"
  then have "c \<in> set (parseCues num
                 (dropWhile (\<lambda>l. \<not> headerTest l) (split_lines [] vttContent)))"
    by (simp add: parseVTT_def)
  from parseCues_cue [OF this]
  show "trim (cue_text c) \<noteq> []
         \<and> (\<exists>line\<in>set (split_lines [] vttContent). \<exists>a b. timeRegex line = Some (a, b)
               \<and> cue_start c = toSeconds num a \<and> cue_end c = toSeconds num b)"
    by (meson set_dropWhileD)
qed

lemma parseVTT_backwardsVtt:
  "parseVTT real backwardsVtt = [\<lparr>cue_start = 5, cue_end = 1, cue_text = [0x48, 0x69]\<rparr>]"
  by (simp add: parseVTT_def backwardsVtt_def headerTest_def stampShape_def colonDigits_def
        dotMillis_def arrow_def is_digit_def is_space_def timeRegex_def timeStamp_def
        stampWithHours_def stampWithoutHours_def toSeconds_def parseInt_def trim_def
        strip_cr_def numeral_2_eq_2 numeral_3_eq_3)

theorem parseVTT_cues_witness:
  "parseVTT real backwardsVtt \<noteq> []
   \<and> trim (cue_text (hd (parseVTT real backwardsVtt))) \<noteq> []"
  using parseVTT_cues [of real backwardsVtt] by (simp add: parseVTT_backwardsVtt)

text \<open>
  The claim as first stated fails for a time line whose second stamp is the earlier one:
  the cue is returned with start 5 and end 1.
\<close>

theorem parseVTT_cues_counterexample:
  "parseVTT real backwardsVtt = [\<lparr>cue_start = 5, cue_end = 1, cue_text = [0x48, 0x69]\<rparr>]
   \<and> \<not> cue_start (hd (parseVTT real backwardsVtt)) < cue_end (hd (parseVTT real backwardsVtt))"
  by (simp add: parseVTT_backwardsVtt)

section \<open>Properties of the HTTP handler\<close>

lemma getProp_field: "json \<noteq> JNull \<Longrightarrow> getProp json (ascii key) = Inr (jsonField json key)"
  by (cases json) (simp_all add: getProp_def jsonField_def)

lemma requestedPath_cases:
  fixes json :: "'a json"
  defines "v \<equiv> jsonField json ''vttPath''"
  defines "vp \<equiv> (if v = None \<or> v = Some JNull then jsonField json ''path'' else v)"
  obtains (path) p where "vp = Some (JStr p)" and "p \<noteq> []" and "requestedPath json = Some p"
    | (empty) "vp = Some (JStr [])" and "requestedPath json = None"
    | (other) "\<And>p. vp \<noteq> Some (JStr p)" and "requestedPath json = None"
proof -
  have rp: "requestedPath json =
              (case vp of Some (JStr p) \<Rightarrow> (if p = [] then None else Some p) | _ \<Rightarrow> None)"
    unfolding requestedPath_def vp_def v_def
    by (cases "jsonField json ''vttPath''" rule: option.exhaust; simp)
       (cases "the (jsonField json ''vttPath'')"; simp)
  show thesis
  proof (cases vp)
    case None
    then show ?thesis using other rp by simp
  next
    case (Some w)
    show ?thesis
    proof (cases w)
      case (JStr p)
      then show ?thesis using Some rp path empty by (cases "p = []") simp_all
    qed (use Some rp other in simp_all)
  qed
qed

lemma postTitling_steps:
  fixes num :: "nat \<Rightarrow> 'a :: {plus, minus, times, inverse}"
  assumes "json \<noteq> JNull"
  shows "postTitling num readFile now st (Some json) =
     (case requestedPath json of
        None \<Rightarrow> Inr (errorResponse (ascii ''Missing vttPath''), st)
      | Some p \<Rightarrow>
          if \<not> validTimeMode json then Inr (errorResponse timeModeMessage, st)
          else (case loadVTT num readFile now st p (jsonField json ''timeMode'')
                       (case jsonField json ''startAt'' of Some (JNum x) \<Rightarrow> Some x | _ \<Rightarrow> None) of
                  Inl message \<Rightarrow> Inr (errorResponse message, st)
                | Inr (result, st') \<Rightarrow> Inr (okResponse num result, st')))"
proof -
  define v where "v = jsonField json ''vttPath''"
  define vp where "vp = (if v = None \<or> v = Some JNull then jsonField json ''path'' else v)"
  have unfold: "postTitling num readFile now st (Some json) =
      (case vp of
         Some (JStr path) \<Rightarrow>
           if path = [] then Inr (errorResponse (ascii ''Missing vttPath''), st)
           else if \<not> validTimeMode json then Inr (errorResponse timeModeMessage, st)
           else (case loadVTT num readFile now st path (jsonField json ''timeMode'')
                       (case jsonField json ''startAt'' of Some (JNum x) \<Rightarrow> Some x | _ \<Rightarrow> None) of
                  Inl message \<Rightarrow> Inr (errorResponse message, st)
                | Inr (result, st') \<Rightarrow> Inr (okResponse num result, st'))
       | _ \<Rightarrow> Inr (errorResponse (ascii ''Missing vttPath''), st))"
    unfolding postTitling_def validTimeMode_def vp_def v_def
    by (simp add: getProp_field [OF assms] if_distrib [of "case_sum _ _"] cong: if_cong option.case_cong json.case_cong)
  show ?thesis
  proof (cases json rule: requestedPath_cases)
    case (path p)
    then show ?thesis unfolding unfold vp_def v_def by simp
  next
    case empty
    then show ?thesis unfolding unfold vp_def v_def by simp
  next
    case other
    then show ?thesis unfolding unfold vp_def v_def
      by (cases "if jsonField json ''vttPath'' = None \<or> jsonField json ''vttPath'' = Some JNull
                 then jsonField json ''path'' else jsonField json ''vttPath''" rule: option.exhaust; simp)
         (cases "the (if jsonField json ''vttPath'' = None \<or> jsonField json ''vttPath'' = Some JNull
                 then jsonField json ''path'' else jsonField json ''vttPath'')"; simp)
  qed
qed


lemma loadVTT_body:
  fixes num :: "nat \<Rightarrow> 'a :: {plus, minus, times, inverse}"
  assumes "readFile p = Inr content"
  shows "\<exists>result st'. loadVTT num readFile now st p (jsonField json ''timeMode'')
                (case jsonField json ''startAt'' of Some (JNum x) \<Rightarrow> Some x | _ \<Rightarrow> None)
              = Inr (result, st')
           \<and> body (okResponse num result) = successBody num json content
           \<and> statusCode (okResponse num result) = 200"
  using assms
  by (auto simp: loadVTT_def Let_def okResponse_def successBody_def
           split: option.splits json.splits)

text \<open>
  Claim C8, as amended. A \<open>POST /titling\<close> request whose body is not valid JSON is
  answered 400. Every other body but \<open>null\<close> is answered 200 when it names a path
  (\<open>vttPath\<close>, or \<open>path\<close>, a non-empty string), its \<open>timeMode\<close> is missing, \<open>"osc"\<close>
  or \<open>"autonomous"\<close>, and the file can be read, with the body
  \<open>{ok, cues, segments, timeMode, startAt?}\<close>; it is answered 400 in every other case:
  no such path, another \<open>timeMode\<close> (\<open>"external"\<close> among them), or a file that cannot be
  read. For the body \<open>null\<close> the handler throws before it writes a response.
\<close>

theorem postTitling_response:
  fixes num :: "nat \<Rightarrow> 'a :: {plus, minus, times, inverse}"
  shows "postTitling num readFile now st None = Inr (errorResponse (ascii ''Invalid JSON''), st)
    \<and> postTitling num readFile now st (Some JNull) = Inl TypeError
    \<and> (json \<noteq> JNull \<longrightarrow>
         (\<exists>resp st'. postTitling num readFile now st (Some json) = Inr (resp, st')
            \<and> statusCode resp = (if accepted readFile json then 200 else 400)
            \<and> (accepted readFile json \<longrightarrow>
                 (\<exists>p content. requestedPath json = Some p \<and> readFile p = Inr content
                    \<and> body resp = successBody num json content))))"
proof -
  have invalid: "postTitling num readFile now st None
                   = Inr (errorResponse (ascii ''Invalid JSON''), st)"
    by (simp add: postTitling_def)
  have null: "postTitling num readFile now st (Some JNull) = Inl TypeError"
    by (simp add: postTitling_def getProp_def)
  have main: "\<exists>resp st'. postTitling num readFile now st (Some json) = Inr (resp, st')
            \<and> statusCode resp = (if accepted readFile json then 200 else 400)
            \<and> (accepted readFile json \<longrightarrow>
                 (\<exists>p content. requestedPath json = Some p \<and> readFile p = Inr content
                    \<and> body resp = successBody num json content))"
    if nn: "json \<noteq> JNull"
  proof (cases "requestedPath json")
    case None
    then show ?thesis
      by (simp add: postTitling_steps [OF nn] accepted_def errorResponse_def)
  next
    case (Some p)
    show ?thesis
    proof (cases "validTimeMode json")
      case False
      with Some show ?thesis
        by (simp add: postTitling_steps [OF nn] accepted_def errorResponse_def)
    next
      case True
      show ?thesis
      proof (cases "readFile p")
        case (Inl message)
        with Some True show ?thesis
          by (simp add: postTitling_steps [OF nn] accepted_def errorResponse_def loadVTT_def)
      next
        case (Inr content)
        from loadVTT_body [where readFile = readFile and p = p and content = content
            and num = num and now = now and st = st and json = json, OF Inr]
        obtain result st' where
          l: "loadVTT num readFile now st p (jsonField json ''timeMode'')
                (case jsonField json ''startAt'' of Some (JNum x) \<Rightarrow> Some x | _ \<Rightarrow> None)
              = Inr (result, st')"
          and b: "body (okResponse num result) = successBody num json content"
          and c: "statusCode (okResponse num result) = 200"
          by blast
        have "postTitling num readFile now st (Some json) = Inr (okResponse num result, st')"
          using Some True l by (simp add: postTitling_steps [OF nn])
        moreover have "accepted readFile json" using Some True Inr by (simp add: accepted_def)
        ultimately show ?thesis using b c Some Inr by simp
      qed
    qed
  qed
  from invalid null main show ?thesis by blast
qed

lemma ascii_keys:
  "ascii ''vttPath'' \<noteq> ascii ''timeMode''" "ascii ''vttPath'' \<noteq> ascii ''startAt''"
  "ascii ''vttPath'' \<noteq> ascii ''path''" "ascii ''timeMode'' \<noteq> ascii ''startAt''"
  "ascii ''timeMode'' \<noteq> ascii ''path''" "ascii ''startAt'' \<noteq> ascii ''path''"
  "ascii ''external'' \<noteq> ascii ''osc''" "ascii ''external'' \<noteq> ascii ''autonomous''"
  "ascii ''autonomous'' \<noteq> ascii ''osc''" "ascii ''a.vtt'' \<noteq> []"
  by (simp_all add: ascii_def)

theorem postTitling_response_witness:
  "autonomousRequest \<noteq> JNull \<and> accepted oneFile autonomousRequest
   \<and> map_sum id (statusCode \<circ> fst) (postTitling real oneFile 1000 idle (Some autonomousRequest))
       = Inr 200"
proof -
  have nn: "autonomousRequest \<noteq> JNull" by (simp add: autonomousRequest_def)
  have acc: "accepted oneFile autonomousRequest"
    by (simp add: accepted_def requestedPath_def validTimeMode_def jsonField_def
          autonomousRequest_def oneFile_def ascii_keys ascii_keys [symmetric])
  from postTitling_response [of real oneFile 1000 idle autonomousRequest] nn acc
  obtain resp st' where
    "postTitling real oneFile 1000 idle (Some autonomousRequest) = Inr (resp, st')"
    and "statusCode resp = 200"
    by auto
  with nn acc show ?thesis by simp
qed

text \<open>
  The claim as first stated fails for a request with a readable \<open>vttPath\<close> and the
  \<open>timeMode\<close> \<open>"external"\<close>: the answer is 400 with the message that \<open>timeMode\<close> must be
  \<open>"osc"\<close> or \<open>"autonomous"\<close>.
\<close>

theorem postTitling_response_counterexample:
  "postTitling real oneFile 1000 idle (Some externalRequest)
     = Inr (errorResponse timeModeMessage, idle)
   \<and> statusCode (errorResponse timeModeMessage :: real response) = 400
   \<and> oneFile (ascii ''a.vtt'') = Inr backwardsVtt"
proof -
  have nn: "externalRequest \<noteq> JNull" by (simp add: externalRequest_def)
  have rp: "requestedPath externalRequest = Some (ascii ''a.vtt'')"
    by (simp add: requestedPath_def jsonField_def externalRequest_def ascii_keys)
  have tm: "\<not> validTimeMode externalRequest"
    by (simp add: validTimeMode_def jsonField_def externalRequest_def ascii_keys
          ascii_keys [symmetric])
  show ?thesis
    by (simp add: postTitling_steps [OF nn] rp tm errorResponse_def oneFile_def)
qed

end
